theory Spec2Isabelle
  imports Complex_Main
begin

section \<open>The harmonic interpolator of \<^verbatim>\<open>main.c\<close>\<close>

text \<open>
  The program computes with C \<^verbatim>\<open>double\<close>s. Two models of it are kept side by side.

  In the first, doubles are the real numbers: \<^verbatim>\<open>exp\<close>, \<^verbatim>\<open>cos\<close>, \<^verbatim>\<open>atan\<close>, \<^verbatim>\<open>sqrt\<close>,
  \<^verbatim>\<open>log\<close> and \<^verbatim>\<open>fabs\<close> are the real functions \<^term>\<open>exp\<close>, \<^term>\<open>cos\<close>, \<^term>\<open>arctan\<close>,
  \<^term>\<open>sqrt\<close>, \<^term>\<open>ln\<close> and \<^term>\<open>abs\<close>, \<^verbatim>\<open>pow(x, 2)\<close> is \<open>x\<^sup>2\<close> and \<^verbatim>\<open>M_PI\<close> is
  \<^term>\<open>pi\<close>. Rounding, infinities and NaN are outside this model: a theorem about it
  is a statement about the program run in exact real arithmetic.

  In the second, whose definitions carry the suffix \<open>_fl\<close>, every arithmetic operation
  and every library call is followed by rounding to the nearest double. It is used
  where a claim is about the number the program returns rather than about the
  mathematics of the curve.
\<close>

subsection \<open>Data\<close>

text \<open>\<^verbatim>\<open>struct interpolator_params { double omega; double gamma; }\<close>\<close>

record interpolator_params =
  omega :: real
  gamma :: real

text \<open>\<^verbatim>\<open>struct interpolator_settings { double overshoot; double rest_position_runs; }\<close>\<close>

record interpolator_settings =
  overshoot :: real
  rest_position_runs :: real

subsection \<open>The curve\<close>

text \<open>\<^verbatim>\<open>return 1 - exp(-gamma * time) * cos(omega * time);\<close>\<close>

definition calculate_interpolation_raw :: "real \<Rightarrow> real \<Rightarrow> real \<Rightarrow> real" where
  "calculate_interpolation_raw \<omega> \<gamma> time = 1 - exp (- \<gamma> * time) * cos (\<omega> * time)"

definition calculate_interpolation :: "interpolator_params \<Rightarrow> real \<Rightarrow> real" where
  "calculate_interpolation params time =
     calculate_interpolation_raw (omega params) (gamma params) time"

subsection \<open>The closed-form solvers\<close>

definition calculate_omega :: "interpolator_settings \<Rightarrow> real" where
  "calculate_omega settings =
     (let rpr = rest_position_runs settings;
          full_oscillations = rpr / 2 + 0.75
      in 2 * pi * full_oscillations)"

definition calculate_turning_time :: "real \<Rightarrow> real \<Rightarrow> real" where
  "calculate_turning_time \<omega> \<gamma> =
     2 * arctan (\<omega> / \<gamma> - sqrt (\<gamma>\<^sup>2 + \<omega>\<^sup>2) / \<gamma>) / \<omega> + pi / \<omega>"

subsection \<open>The damping search\<close>

text \<open>
  The body of \<^verbatim>\<open>while (true)\<close> in \<^verbatim>\<open>calculate_gamma\<close>. The loop has no iteration
  bound, so the model is a partial function: \<^term>\<open>None\<close> is a run that never breaks.
  The loop variables are \<open>\<gamma>\<close> and \<open>deviation\<close>; \<open>ov\<close> is \<^verbatim>\<open>settings.overshoot\<close>.
\<close>

partial_function (option) gamma_loop ::
  "real \<Rightarrow> real \<Rightarrow> real \<Rightarrow> real \<Rightarrow> real \<Rightarrow> real \<Rightarrow> real option" where
  "gamma_loop ov \<omega> precision sign \<gamma> deviation =
     (let tuned_gamma = \<gamma> + sign * precision;
          tuned_time = calculate_turning_time \<omega> tuned_gamma;
          tuned_interpolation = calculate_interpolation_raw \<omega> tuned_gamma tuned_time - 1;
          tuned_deviation = \<bar>ov - tuned_interpolation\<bar>
      in if tuned_deviation < deviation
         then gamma_loop ov \<omega> precision sign tuned_gamma tuned_deviation
         else Some \<gamma>)"

definition calculate_gamma :: "interpolator_settings \<Rightarrow> real \<Rightarrow> real option" where
  "calculate_gamma settings \<omega> =
     (let precision = 0.01;
          time = pi / \<omega>;
          \<gamma> = - ln (overshoot settings) / time;
          adjusted_time = calculate_turning_time \<omega> \<gamma>;
          interpolation = calculate_interpolation_raw \<omega> \<gamma> adjusted_time - 1;
          deviation = \<bar>overshoot settings - interpolation\<bar>;
          sign = (if interpolation - overshoot settings > 0 then 1 else - 1)
      in gamma_loop (overshoot settings) \<omega> precision sign \<gamma> deviation)"

definition calculate_params :: "interpolator_settings \<Rightarrow> interpolator_params option" where
  "calculate_params settings =
     (let \<omega> = calculate_omega settings
      in case calculate_gamma settings \<omega> of
           None \<Rightarrow> None
         | Some \<gamma> \<Rightarrow> Some \<lparr>omega = \<omega>, gamma = \<gamma>\<rparr>)"

subsection \<open>Quantities the search computes\<close>

text \<open>
  The search evaluates the same three expressions at the seed and at every tuned
  \<open>\<gamma>\<close>: the turning time, the curve there minus one (\<^verbatim>\<open>interpolation\<close>,
  \<^verbatim>\<open>tuned_interpolation\<close>) and its distance from the wanted overshoot
  (\<^verbatim>\<open>deviation\<close>, \<^verbatim>\<open>tuned_deviation\<close>). They are named here so that statements
  about the loop can speak of them.
\<close>

definition peak_overshoot :: "real \<Rightarrow> real \<Rightarrow> real" where
  "peak_overshoot \<omega> \<gamma> = calculate_interpolation_raw \<omega> \<gamma> (calculate_turning_time \<omega> \<gamma>) - 1"

definition deviation_at :: "real \<Rightarrow> real \<Rightarrow> real \<Rightarrow> real" where
  "deviation_at ov \<omega> \<gamma> = \<bar>ov - peak_overshoot \<omega> \<gamma>\<bar>"

text \<open>The seed: \<^verbatim>\<open>double time = M_PI / omega; double gamma = -log(settings.overshoot) / time;\<close>\<close>

definition naive_gamma :: "interpolator_settings \<Rightarrow> real \<Rightarrow> real" where
  "naive_gamma settings \<omega> = - ln (overshoot settings) / (pi / \<omega>)"

text \<open>\<^verbatim>\<open>if (interpolation - settings.overshoot > 0) sign = 1; else sign = -1;\<close>\<close>

definition search_sign :: "interpolator_settings \<Rightarrow> real \<Rightarrow> real" where
  "search_sign settings \<omega> =
     (if peak_overshoot \<omega> (naive_gamma settings \<omega>) - overshoot settings > 0 then 1 else - 1)"

text \<open>
  The loop as a step relation, which also speaks of runs that never break:
  \<open>search_state settings \<omega> \<gamma> deviation\<close> holds when the loop head is reached with
  these values of the two loop variables.
\<close>

inductive search_state :: "interpolator_settings \<Rightarrow> real \<Rightarrow> real \<Rightarrow> real \<Rightarrow> bool"
  for settings :: interpolator_settings and \<omega> :: real where
  seed: "search_state settings \<omega> (naive_gamma settings \<omega>)
           (deviation_at (overshoot settings) \<omega> (naive_gamma settings \<omega>))"
| accept: "search_state settings \<omega> \<gamma> deviation \<Longrightarrow>
           tuned_gamma = \<gamma> + search_sign settings \<omega> * 0.01 \<Longrightarrow>
           tuned_deviation = deviation_at (overshoot settings) \<omega> tuned_gamma \<Longrightarrow>
           tuned_deviation < deviation \<Longrightarrow>
           search_state settings \<omega> tuned_gamma tuned_deviation"

subsection \<open>The self-test\<close>

text \<open>
  The sampling loop of \<^verbatim>\<open>test_interpolation\<close>: its three variables, one iteration, and
  the state after the first \<open>n\<close> iterations. The C loop runs \<^verbatim>\<open>for (i = 0; i < steps; i++)\<close>
  with \<^verbatim>\<open>steps = 100\<close>, so the state it ends in is \<open>test_loop params 100 100\<close>.
\<close>

record test_state =
  last_interpolation :: real
  rest_position_counter :: int
  detected_overshoot :: real

definition test_step :: "interpolator_params \<Rightarrow> real \<Rightarrow> nat \<Rightarrow> test_state \<Rightarrow> test_state" where
  "test_step params steps i st =
     (let time = real i / steps;
          interpolation = calculate_interpolation params time;
          normalized_interpolation = interpolation - 1;
          counter = (if last_interpolation st * normalized_interpolation < 0
                     then rest_position_counter st + 1 else rest_position_counter st);
          detected = (if counter > 0 \<and> \<bar>detected_overshoot st\<bar> < \<bar>normalized_interpolation\<bar>
                      then normalized_interpolation else detected_overshoot st)
      in \<lparr>last_interpolation = normalized_interpolation,
          rest_position_counter = counter,
          detected_overshoot = detected\<rparr>)"

primrec test_loop :: "interpolator_params \<Rightarrow> real \<Rightarrow> nat \<Rightarrow> test_state" where
  "test_loop params steps 0 =
     \<lparr>last_interpolation = - 1, rest_position_counter = 0, detected_overshoot = 0\<rparr>"
| "test_loop params steps (Suc i) = test_step params steps i (test_loop params steps i)"

text \<open>
  The same experiment in the words of the specification: the list of the 100 values
  \<open>curve (i / 100) - 1\<close>, the number of places where two neighbouring values of a
  list have opposite signs, and what is left of a list after its initial run of
  negative values (the initial trough, which the first sign change ends).
\<close>

definition normalized_sample :: "interpolator_params \<Rightarrow> nat \<Rightarrow> real" where
  "normalized_sample params i = calculate_interpolation params (real i / 100) - 1"

definition normalized_samples :: "interpolator_params \<Rightarrow> real list" where
  "normalized_samples params = map (normalized_sample params) [0..<100]"

fun sign_changes :: "real list \<Rightarrow> nat" where
  "sign_changes (x # y # xs) = (if x * y < 0 then 1 else 0) + sign_changes (y # xs)"
| "sign_changes _ = 0"

definition after_initial_trough :: "real list \<Rightarrow> real list" where
  "after_initial_trough xs = dropWhile (\<lambda>v. v < 0) xs"

text \<open>
  For \<open>omega = 5.5 \<pi>\<close> the samples below the resting value are those with these
  indices (used in the proofs only).
\<close>

definition in_trough :: "nat \<Rightarrow> bool" where
  "in_trough i \<longleftrightarrow> i < 10 \<or> (28 \<le> i \<and> i < 46) \<or> (64 \<le> i \<and> i < 82)"

subsection \<open>Rounding to double\<close>

text \<open>
  A finite nonzero double is \<open>m * 2\<^sup>e\<close> with an integer \<open>2\<^sup>5\<^sup>2 \<le> \<bar>m\<bar> < 2\<^sup>5\<^sup>3\<close>.
  \<open>rne\<close> rounds a real to the nearest integer, a tie to the even one. \<open>fl x\<close> scales
  \<open>x\<close> by the power of two that brings it into that range, rounds and scales back:
  the double nearest to \<open>x\<close>, ties to even, which is what IEEE 754 arithmetic returns
  for \<^verbatim>\<open>+\<close>, \<^verbatim>\<open>-\<close>, \<^verbatim>\<open>*\<close>, \<^verbatim>\<open>/\<close> and \<^verbatim>\<open>sqrt\<close> in the default rounding mode. The
  exponent is not bounded: overflow to infinity, NaN and subnormal numbers are outside
  this model as well. The library functions \<^verbatim>\<open>exp\<close>, \<^verbatim>\<open>cos\<close>, \<^verbatim>\<open>log\<close>, \<^verbatim>\<open>atan\<close> and
  \<^verbatim>\<open>pow\<close> are taken to be correctly rounded, \<open>fl\<close> of the exact value.
\<close>

definition rne :: "real \<Rightarrow> int" where
  "rne x = (let f = \<lfloor>x\<rfloor>; r = x - of_int f
            in if r < 1 / 2 then f else if 1 / 2 < r then f + 1
               else if even f then f else f + 1)"

definition fl :: "real \<Rightarrow> real" where
  "fl x = (if x = 0 then 0
           else (let e = \<lfloor>log 2 \<bar>x\<bar>\<rfloor> - 52
                 in of_int (rne (x / 2 powr of_int e)) * 2 powr of_int e))"


text \<open>\<^verbatim>\<open>return 1 - exp(-gamma * time) * cos(omega * time);\<close> with its five roundings of
  arithmetic and two of library calls. Negation is exact.\<close>

definition calculate_interpolation_raw_fl :: "real \<Rightarrow> real \<Rightarrow> real \<Rightarrow> real" where
  "calculate_interpolation_raw_fl \<omega> \<gamma> time =
     fl (1 - fl (fl (exp (fl (- \<gamma> * time))) * fl (cos (fl (\<omega> * time)))))"















section \<open>Rounding\<close>

text \<open>Rounding to the nearest integer is off by at most a half and is odd.\<close>

lemma rne_error: "\<bar>of_int (rne x) - x\<bar> \<le> 1 / 2"
  unfolding rne_def Let_def by (simp add: abs_if) linarith

lemma rne_eqI:
  assumes "\<bar>x - of_int m\<bar> < 1 / 2"
  shows "rne x = m"
proof -
  have "\<bar>of_int (rne x) - x\<bar> \<le> 1 / 2" by (rule rne_error)
  then have "\<bar>(of_int (rne x) :: real) - of_int m\<bar> < 1" using assms by linarith
  then have "\<bar>rne x - m\<bar> < 1" by (metis of_int_diff of_int_abs of_int_less_1_iff)
  then show ?thesis by linarith
qed

lemma rne_tie:
  assumes "x = of_int m + 1 / 2"
  shows "rne x = (if even m then m else m + 1)"
proof -
  have "\<lfloor>x\<rfloor> = m" unfolding assms by linarith
  then show ?thesis unfolding rne_def Let_def by (simp add: assms)
qed

lemma rne_le:
  assumes "x \<le> of_int n"
  shows "rne x \<le> n"
proof -
  have f: "\<lfloor>x\<rfloor> \<le> n" using assms by (simp add: floor_le_iff)
  show ?thesis
  proof (cases "\<lfloor>x\<rfloor> = n")
    case True
    then have "of_int n \<le> x" by (metis of_int_floor_le)
    then have "x = of_int n" using assms by linarith
    then show ?thesis by (simp add: rne_def Let_def)
  next
    case False
    then have "\<lfloor>x\<rfloor> + 1 \<le> n" using f by linarith
    then show ?thesis unfolding rne_def Let_def by (simp add: f)
  qed
qed

lemma rne_ge:
  assumes "of_int n \<le> x"
  shows "n \<le> rne x"
proof -
  have "n \<le> \<lfloor>x\<rfloor>" using assms by (simp add: le_floor_iff)
  then show ?thesis unfolding rne_def Let_def by simp
qed

lemma binade:
  assumes "x \<noteq> 0"
  shows "2 ^ 52 \<le> \<bar>x\<bar> / 2 powr of_int (\<lfloor>log 2 \<bar>x\<bar>\<rfloor> - 52)"
    and "\<bar>x\<bar> / 2 powr of_int (\<lfloor>log 2 \<bar>x\<bar>\<rfloor> - 52) < 2 ^ 53"
proof -
  define k where "k = \<lfloor>log 2 \<bar>x\<bar>\<rfloor>"
  have pos: "0 < \<bar>x\<bar>" using assms by simp
  have "2 powr of_int k \<le> \<bar>x\<bar> \<and> \<bar>x\<bar> < 2 powr (of_int k + 1)"
    using floor_log_eq_powr_iff [OF pos, of 2 k] by (simp add: k_def)
  then have b: "2 powr of_int k \<le> \<bar>x\<bar>" "\<bar>x\<bar> < 2 powr (of_int k + 1)" by simp_all
  have e1: "(2::real) powr of_int k = 2 ^ 52 * 2 powr of_int (k - 52)"
    using powr_add [of "2::real" 52 "of_int (k - 52)"] by (simp add: powr_numeral)
  have e2: "(2::real) powr (of_int k + 1) = 2 ^ 53 * 2 powr of_int (k - 52)"
    using powr_add [of "2::real" 53 "of_int (k - 52)"] by (simp add: powr_numeral add.commute)
  have p: "0 < (2::real) powr of_int (k - 52)" by simp
  show "2 ^ 52 \<le> \<bar>x\<bar> / 2 powr of_int (\<lfloor>log 2 \<bar>x\<bar>\<rfloor> - 52)"
    unfolding k_def [symmetric] using b(1) p unfolding e1 by (simp add: pos_le_divide_eq)
  show "\<bar>x\<bar> / 2 powr of_int (\<lfloor>log 2 \<bar>x\<bar>\<rfloor> - 52) < 2 ^ 53"
    unfolding k_def [symmetric] using b(2) p unfolding e2 by (simp add: pos_divide_less_eq)
qed


lemma rne_neg: "rne (- x) = - rne x"
proof (cases "\<bar>of_int (rne x) - x\<bar> < 1 / 2")
  case True
  then have "\<bar>- x - of_int (- rne x)\<bar> < 1 / 2" by simp
  then show ?thesis by (rule rne_eqI)
next
  case False
  define n where "n = \<lfloor>x\<rfloor>"
  have fr: "of_int n \<le> x" "x < of_int n + 1" unfolding n_def by linarith+
  have half: "x = of_int n + 1 / 2"
  proof (rule ccontr)
    assume ne: "x \<noteq> of_int n + 1 / 2"
    then consider "x - of_int n < 1 / 2" | "1 / 2 < x - of_int n" by linarith
    then show False
    proof cases
      case 1
      then have "rne x = n" by (simp add: rne_def Let_def n_def)
      then show False using False 1 fr by simp
    next
      case 2
      then have "rne x = n + 1" by (simp add: rne_def Let_def n_def)
      then show False using False 2 fr by simp
    qed
  qed
  have a: "rne x = (if even n then n else n + 1)" by (rule rne_tie [OF half])
  have "- x = of_int (- n - 1) + 1 / 2" using half by simp
  from rne_tie [OF this] have b: "rne (- x) = (if even (- n - 1) then - n - 1 else - n)"
    by simp
  show ?thesis unfolding a b by simp
qed

lemma fl_0 [simp]: "fl 0 = 0"
  by (simp add: fl_def)

lemma fl_neg: "fl (- x) = - fl x"
  by (simp add: fl_def Let_def rne_neg)

lemma fl_rel_error: "\<bar>fl x - x\<bar> \<le> \<bar>x\<bar> / 2 ^ 53"
proof (cases "x = 0")
  case True
  then show ?thesis by simp
next
  case False
  define e where "e = \<lfloor>log 2 \<bar>x\<bar>\<rfloor> - 52"
  define a where "a = x / 2 powr of_int e"
  have p: "0 < (2::real) powr of_int e" by simp
  have a52: "2 ^ 52 \<le> \<bar>a\<bar>" using binade(1) [OF False] by (simp add: a_def e_def)
  have "\<bar>of_int (rne a) - a\<bar> \<le> 1 / 2" by (rule rne_error)
  also have "\<dots> \<le> \<bar>a\<bar> / 2 ^ 53" using a52 by simp
  finally have "\<bar>of_int (rne a) - a\<bar> * 2 powr of_int e \<le> \<bar>a\<bar> / 2 ^ 53 * 2 powr of_int e"
    using p by (simp add: mult_right_mono)
  moreover have "\<bar>of_int (rne a) - a\<bar> * 2 powr of_int e = \<bar>fl x - x\<bar>"
  proof -
    have "\<bar>of_int (rne a) - a\<bar> * 2 powr of_int e = \<bar>(of_int (rne a) - a) * 2 powr of_int e\<bar>"
      by (simp add: abs_mult)
    also have "(of_int (rne a) - a) * 2 powr of_int e = fl x - x"
      using False by (simp add: fl_def Let_def a_def e_def algebra_simps)
    finally show ?thesis .
  qed
  moreover have "\<bar>a\<bar> / 2 ^ 53 * 2 powr of_int e = \<bar>x\<bar> / 2 ^ 53"
    by (simp add: a_def abs_divide)
  ultimately show ?thesis by simp
qed

lemma fl_pos: "0 < x \<Longrightarrow> 0 < fl x"
proof -
  assume x: "0 < x"
  have "\<bar>fl x - x\<bar> \<le> \<bar>x\<bar> / 2 ^ 53" by (rule fl_rel_error)
  also have "\<dots> < x" using x by simp
  finally show ?thesis by linarith
qed

lemma fl_neg_sign: "x < 0 \<Longrightarrow> fl x < 0"
  using fl_pos [of "- x"] by (simp add: fl_neg)

lemma fl_nonneg: "0 \<le> x \<Longrightarrow> 0 \<le> fl x"
  using fl_pos [of x] by (cases "x = 0") (simp_all add: less_eq_real_def)

lemma fl_nonpos: "x \<le> 0 \<Longrightarrow> fl x \<le> 0"
  using fl_nonneg [of "- x"] by (simp add: fl_neg)

lemma floor_log2_eq:
  assumes "2 ^ 52 \<le> \<bar>x\<bar> * 2 ^ k" "\<bar>x\<bar> * 2 ^ k < 2 ^ 53"
  shows "\<lfloor>log 2 \<bar>x\<bar>\<rfloor> = 52 - int k"
proof -
  have pos: "0 < \<bar>x\<bar>" using assms(1) by (cases "x = 0") simp_all
  have k: "(2::real) powr real k = 2 ^ k" by (simp add: powr_realpow)
  have "(2::real) powr (52 - real k) = 2 powr 52 / 2 powr real k" by (rule powr_diff)
  then have p: "(2::real) powr (52 - real k) = 2 ^ 52 / 2 ^ k" by (simp add: k)
  have "(2::real) powr (53 - real k) = 2 powr 53 / 2 powr real k" by (rule powr_diff)
  then have q: "(2::real) powr (53 - real k) = 2 ^ 53 / 2 ^ k" by (simp add: k)
  have a: "2 powr real_of_int (52 - int k) \<le> \<bar>x\<bar>"
    using assms(1) by (simp add: p pos_divide_le_eq)
  have b: "\<bar>x\<bar> < 2 powr (real_of_int (52 - int k) + 1)"
    using assms(2) by (simp add: q pos_less_divide_eq)
  show ?thesis
    using floor_log_eq_powr_iff [OF pos, of 2 "52 - int k"] a b by simp
qed

lemma fl_eqI:
  assumes "2 ^ 52 \<le> \<bar>x\<bar> * 2 ^ k" "\<bar>x\<bar> * 2 ^ k < 2 ^ 53"
    and "\<bar>x * 2 ^ k - of_int m\<bar> < 1 / 2"
  shows "fl x = of_int m / 2 ^ k"
proof -
  have pos: "0 < \<bar>x\<bar>" using assms(1) by (cases "x = 0") simp_all
  then have x0: "x \<noteq> 0" by simp
  have e: "\<lfloor>log 2 \<bar>x\<bar>\<rfloor> - 52 = - int k"
    using floor_log2_eq [OF assms(1,2)] by simp
  have s: "(2::real) powr (- real k) = 1 / 2 ^ k"
    by (simp add: powr_minus powr_realpow inverse_eq_divide)
  have "rne (x * 2 ^ k) = m" by (rule rne_eqI [OF assms(3)])
  then show ?thesis using x0 by (simp add: fl_def Let_def e s)
qed


lemma fl_1 [simp]: "fl 1 = 1"
  using fl_eqI [of 1 52 "2 ^ 52"] by simp

lemma fl_near_1:
  assumes "1 - 1 / 2 ^ 54 < x" "x \<le> 1"
  shows "fl x = 1"
proof (cases "x = 1")
  case True
  then show ?thesis by simp
next
  case False
  then have x: "0 < x" "x < 1" using assms by simp_all
  have "\<bar>x * 2 ^ 53 - of_int (2 ^ 53)\<bar> < 1 / 2" using assms x by simp
  from fl_eqI [of x 53 "2 ^ 53", OF _ _ this] show ?thesis using assms x by simp
qed

lemma fl_abs_le_1:
  assumes "\<bar>x\<bar> \<le> 1"
  shows "\<bar>fl x\<bar> \<le> 1"
proof -
  have main: "fl y \<le> 1" if y: "0 < y" "y < 1" for y
  proof -
    define e where "e = \<lfloor>log 2 \<bar>y\<bar>\<rfloor> - 52"
    define a where "a = y / 2 powr of_int e"
    have y0: "y \<noteq> 0" using y by simp
    have "log 2 y < 0" using y by simp
    then have "\<lfloor>log 2 \<bar>y\<bar>\<rfloor> \<le> - 1" using y by (simp add: floor_le_iff)
    then have e: "e \<le> - 53" by (simp add: e_def)
    then have "(2::real) powr of_int e \<le> 2 powr (- 53)" by simp
    then have pe: "(2::real) powr of_int e \<le> 1 / 2 ^ 53"
      by (simp add: powr_minus inverse_eq_divide)
    have "\<bar>a\<bar> < 2 ^ 53" using binade(2) [OF y0] by (simp add: a_def e_def)
    then have "a \<le> of_int (2 ^ 53)" by simp
    then have "rne a \<le> 2 ^ 53" by (rule rne_le)
    then have r: "(of_int (rne a) :: real) \<le> 2 ^ 53" by (metis of_int_le_iff of_int_numeral of_int_power)
    have "0 < a" using y by (simp add: a_def)
    then have "(0::int) \<le> rne a" using rne_ge [of 0 a] by simp
    then have r0: "(0::real) \<le> of_int (rne a)" by simp
    have "fl y = of_int (rne a) * 2 powr of_int e"
      using y0 by (simp add: fl_def Let_def a_def e_def)
    also have "\<dots> \<le> 2 ^ 53 * (1 / 2 ^ 53)"
      by (rule mult_mono [OF r pe]) simp_all
    finally show ?thesis by simp
  qed
  consider "x = 0" | "\<bar>x\<bar> = 1" | "0 < x" "x < 1" | "x < 0" "- 1 < x" using assms by linarith
  then show ?thesis
  proof cases
    case 1
    then show ?thesis by simp
  next
    case 2
    then have "x = 1 \<or> x = - 1" by linarith
    then show ?thesis using fl_neg [of 1] by auto
  next
    case 3
    then show ?thesis using main [of x] fl_pos [of x] by simp
  next
    case 4
    then show ?thesis using main [of "- x"] fl_neg_sign [of x] by (simp add: fl_neg)
  qed
qed

lemma cos_lipschitz:
  fixes v w :: real
  shows "\<bar>cos w - cos v\<bar> \<le> \<bar>w - v\<bar>"
proof -
  have s1: "\<bar>sin ((w + v) / 2)\<bar> \<le> 1" by simp
  have s2: "\<bar>sin ((v - w) / 2)\<bar> \<le> \<bar>(v - w) / 2\<bar>" by (rule abs_sin_x_le_abs_x)
  have "cos w - cos v = 2 * sin ((w + v) / 2) * sin ((v - w) / 2)" by (rule cos_diff_cos)
  then have "\<bar>cos w - cos v\<bar> = 2 * (\<bar>sin ((w + v) / 2)\<bar> * \<bar>sin ((v - w) / 2)\<bar>)"
    by (simp add: abs_mult)
  also have "\<dots> \<le> 2 * (1 * \<bar>(v - w) / 2\<bar>)"
    by (intro mult_left_mono mult_mono s1 s2) simp_all
  finally show ?thesis by simp
qed

lemma exp_lipschitz_nonpos:
  fixes x y :: real
  assumes "x \<le> 0" "y \<le> 0"
  shows "\<bar>exp x - exp y\<bar> \<le> \<bar>x - y\<bar>"
proof -
  have main: "exp b - exp a \<le> b - a" if "a \<le> b" "b \<le> 0" for a b :: real
  proof -
    have "1 + (a - b) \<le> exp (a - b)" by (rule exp_ge_add_one_self)
    then have "1 - exp (a - b) \<le> b - a" by linarith
    moreover have "exp b \<le> 1" using that by simp
    moreover have "0 \<le> 1 - exp (a - b)" using that by simp
    ultimately have "exp b * (1 - exp (a - b)) \<le> 1 * (b - a)"
      by (intro mult_mono) simp_all
    moreover have "exp b * (1 - exp (a - b)) = exp b - exp a"
      by (simp add: algebra_simps flip: exp_add)
    ultimately show ?thesis by simp
  qed
  show ?thesis
  proof (cases "x \<le> y")
    case True
    then show ?thesis using main [of x y] assms by simp
  next
    case False
    then show ?thesis using main [of y x] assms by simp
  qed
qed

lemma fl_error_le: "\<bar>x\<bar> \<le> b \<Longrightarrow> \<bar>fl x - x\<bar> \<le> b / 2 ^ 53"
  using fl_rel_error [of x] by (simp add: field_simps)

lemma exp_small_gt:
  fixes x :: real
  assumes "0 \<le> x" "x < 1 / 2 ^ 54"
  shows "1 - 1 / 2 ^ 54 < exp (- x)"
proof -
  have "1 + (- x) \<le> exp (- x)" by (rule exp_ge_add_one_self)
  then show ?thesis using assms by linarith
qed

lemma cos_small_gt:
  fixes x :: real
  assumes "\<bar>x\<bar> < 1 / 2 ^ 54"
  shows "1 - 1 / 2 ^ 54 < cos x"
proof -
  have "\<bar>cos x - cos 0\<bar> \<le> \<bar>x - 0\<bar>" by (rule cos_lipschitz)
  then show ?thesis using assms by (simp add: abs_if split: if_splits)
qed

lemma fl_pow2_60: "fl (1 / 2 ^ 60) = 1 / 2 ^ 60"
  using fl_eqI [of "1 / 2 ^ 60" 112 "2 ^ 52"] by simp





section \<open>The curve evaluator\<close>

text \<open>
  C5, as the claim states it, fails: the evaluator does not return exactly
  \<open>1 - exp (- \<gamma> t) cos (\<omega> t)\<close>. At \<open>\<omega> = \<gamma> = 1\<close> and \<open>t = 2\<^sup>-\<^sup>6\<^sup>0\<close> the products are
  exact, \<^verbatim>\<open>exp\<close> and \<^verbatim>\<open>cos\<close> both round to \<open>1\<close> and the program returns \<open>0\<close>, while the
  expression is positive.
\<close>

theorem calculate_interpolation_raw_fl_inexact:
  "calculate_interpolation_raw_fl 1 1 (1 / 2 ^ 60) = 0 \<and>
   (0::real) < 1 - exp (- (1 * (1 / 2 ^ 60))) * cos (1 * (1 / 2 ^ 60))"
proof -
  define t :: real where "t = 1 / 2 ^ 60"
  have ft: "fl t = t" unfolding t_def by (rule fl_pow2_60)
  have tb: "0 < t" "t < 1 / 2 ^ 54" by (simp_all add: t_def)
  have e: "fl (exp (- t)) = 1"
    by (rule fl_near_1 [OF exp_small_gt]) (use tb in simp_all)
  have c: "fl (cos t) = 1"
    by (rule fl_near_1 [OF cos_small_gt]) (use tb in simp_all)
  have code: "calculate_interpolation_raw_fl 1 1 t = 0"
    by (simp add: calculate_interpolation_raw_fl_def fl_neg ft e c)
  have "exp (- t) * cos t \<le> exp (- t) * 1" by (intro mult_left_mono) simp_all
  also have "\<dots> < 1" using tb by simp
  finally have "0 < 1 - exp (- (1 * t)) * cos (1 * t)" by simp
  with code show ?thesis unfolding t_def by simp
qed

text \<open>
  C5, amended. For \<open>\<gamma> \<ge> 0\<close> and \<open>0 \<le> t \<le> 1\<close>, the domain the evaluator is written for,
  the double it returns differs from \<open>1 - exp (- \<gamma> t) cos (\<omega> t)\<close> by at most
  \<open>(5 + \<bar>\<omega> t\<bar> + \<bar>\<gamma> t\<bar>) / 2\<^sup>5\<^sup>3\<close>: the two products carry their relative rounding
  error into \<^verbatim>\<open>exp\<close> and \<^verbatim>\<open>cos\<close>, which do not amplify it there, and each of the five
  remaining roundings adds at most \<open>2\<^sup>-\<^sup>5\<^sup>3\<close> times a value of size at most \<open>1\<close> or \<open>2\<close>.
\<close>

theorem calculate_interpolation_raw_fl_error:
  assumes "0 \<le> \<gamma>" "0 \<le> t" "t \<le> 1"
  shows "\<bar>calculate_interpolation_raw_fl \<omega> \<gamma> t - (1 - exp (- (\<gamma> * t)) * cos (\<omega> * t))\<bar>
         \<le> (5 + \<bar>\<omega> * t\<bar> + \<bar>\<gamma> * t\<bar>) / 2 ^ 53"
proof -
  define u :: real where "u = 1 / 2 ^ 53"
  define a where "a = fl (\<omega> * t)"
  define c where "c = fl (cos a)"
  define b where "b = fl (- \<gamma> * t)"
  define E where "E = fl (exp b)"
  define p where "p = fl (E * c)"
  have gt: "0 \<le> \<gamma> * t" using assms by simp
  have a: "\<bar>a - \<omega> * t\<bar> \<le> \<bar>\<omega> * t\<bar> * u"
    using fl_rel_error [of "\<omega> * t"] by (simp add: a_def u_def)
  have "\<bar>cos a - cos (\<omega> * t)\<bar> \<le> \<bar>a - \<omega> * t\<bar>" by (rule cos_lipschitz)
  moreover have "\<bar>c - cos a\<bar> \<le> u"
    using fl_error_le [of "cos a" 1] by (simp add: c_def u_def)
  ultimately have c: "\<bar>c - cos (\<omega> * t)\<bar> \<le> u + \<bar>\<omega> * t\<bar> * u" using a by linarith
  have c1: "\<bar>c\<bar> \<le> 1" unfolding c_def by (rule fl_abs_le_1) simp
  have b0: "b \<le> 0" unfolding b_def by (rule fl_nonpos) (use gt in simp)
  have b: "\<bar>b - (- (\<gamma> * t))\<bar> \<le> \<bar>\<gamma> * t\<bar> * u"
    using fl_rel_error [of "- \<gamma> * t"] by (simp add: b_def u_def)
  have "\<bar>exp b - exp (- (\<gamma> * t))\<bar> \<le> \<bar>b - (- (\<gamma> * t))\<bar>"
    by (rule exp_lipschitz_nonpos [OF b0]) (use gt in simp)
  moreover have "\<bar>E - exp b\<bar> \<le> u"
    using fl_error_le [of "exp b" 1] b0 by (simp add: E_def u_def)
  ultimately have E: "\<bar>E - exp (- (\<gamma> * t))\<bar> \<le> u + \<bar>\<gamma> * t\<bar> * u" using b by linarith
  have E1: "\<bar>E\<bar> \<le> 1" unfolding E_def by (rule fl_abs_le_1) (use b0 in simp)
  have Ec1: "\<bar>E * c\<bar> \<le> 1" using mult_mono [OF E1 c1] by (simp add: abs_mult)
  have "E * c - exp (- (\<gamma> * t)) * cos (\<omega> * t)
        = E * (c - cos (\<omega> * t)) + cos (\<omega> * t) * (E - exp (- (\<gamma> * t)))"
    by (simp add: algebra_simps)
  then have "\<bar>E * c - exp (- (\<gamma> * t)) * cos (\<omega> * t)\<bar>
        \<le> \<bar>E\<bar> * \<bar>c - cos (\<omega> * t)\<bar> + \<bar>cos (\<omega> * t)\<bar> * \<bar>E - exp (- (\<gamma> * t))\<bar>"
    by (metis abs_mult abs_triangle_ineq)
  also have "\<dots> \<le> 1 * (u + \<bar>\<omega> * t\<bar> * u) + 1 * (u + \<bar>\<gamma> * t\<bar> * u)"
    by (intro add_mono mult_mono E1 c E) simp_all
  finally have prod: "\<bar>E * c - exp (- (\<gamma> * t)) * cos (\<omega> * t)\<bar>
        \<le> 2 * u + \<bar>\<omega> * t\<bar> * u + \<bar>\<gamma> * t\<bar> * u" by simp
  have p: "\<bar>p - E * c\<bar> \<le> u"
    using fl_error_le [OF Ec1] by (simp add: p_def u_def)
  have p1: "\<bar>p\<bar> \<le> 1" unfolding p_def by (rule fl_abs_le_1 [OF Ec1])
  then have "\<bar>1 - p\<bar> \<le> 2" by linarith
  from fl_error_le [OF this] have r: "\<bar>fl (1 - p) - (1 - p)\<bar> \<le> 2 * u" by (simp add: u_def)
  have "calculate_interpolation_raw_fl \<omega> \<gamma> t = fl (1 - p)"
    by (simp add: calculate_interpolation_raw_fl_def p_def E_def b_def c_def a_def)
  moreover have "\<bar>fl (1 - p) - (1 - exp (- (\<gamma> * t)) * cos (\<omega> * t))\<bar>
        \<le> 5 * u + \<bar>\<omega> * t\<bar> * u + \<bar>\<gamma> * t\<bar> * u"
    using r p prod by linarith
  ultimately show ?thesis by (simp add: u_def add_divide_distrib)
qed

theorem calculate_interpolation_raw_fl_error_witness:
  "(0::real) \<le> 3 \<and> (0::real) \<le> 1 / 2 \<and> (1 / 2 :: real) \<le> 1 \<and>
   \<bar>calculate_interpolation_raw_fl 7 3 (1 / 2) - (1 - exp (- (3 * (1 / 2))) * cos (7 * (1 / 2)))\<bar>
     \<le> 10 / 2 ^ 53"
  using calculate_interpolation_raw_fl_error [of 3 "1 / 2" 7] by simp



text \<open>C6. At time \<open>0\<close> the curve is exactly \<open>0\<close>, whatever \<open>\<omega>\<close> and \<open>\<gamma>\<close> are.\<close>

theorem calculate_interpolation_raw_at_0:
  "calculate_interpolation_raw \<omega> \<gamma> 0 = 0"
  by (simp add: calculate_interpolation_raw_def)

lemma exp_cos_abs_le_1:
  fixes \<gamma> t \<omega> :: real
  assumes "0 \<le> \<gamma>" "0 \<le> t"
  shows "\<bar>exp (- \<gamma> * t) * cos (\<omega> * t)\<bar> \<le> 1"
proof -
  have "0 \<le> \<gamma> * t" using assms by simp
  then have e: "exp (- \<gamma> * t) \<le> 1" by simp
  have "\<bar>exp (- \<gamma> * t) * cos (\<omega> * t)\<bar> = exp (- \<gamma> * t) * \<bar>cos (\<omega> * t)\<bar>"
    by (simp add: abs_mult)
  also have "\<dots> \<le> 1 * 1"
    by (rule mult_mono) (use e in simp_all)
  finally show ?thesis by simp
qed

text \<open>
  C10. For every \<open>\<omega>\<close>, every \<open>\<gamma> \<ge> 0\<close> and every \<open>t \<ge> 0\<close> the curve value lies in
  the closed interval \<open>[0, 2]\<close>: it is never negative and never more than twice the
  resting value.
\<close>

theorem calculate_interpolation_raw_range:
  "0 \<le> \<gamma> \<Longrightarrow> 0 \<le> t \<Longrightarrow>
     0 \<le> calculate_interpolation_raw \<omega> \<gamma> t \<and> calculate_interpolation_raw \<omega> \<gamma> t \<le> 2"
  using exp_cos_abs_le_1 [of \<gamma> t \<omega>]
  by (simp add: calculate_interpolation_raw_def abs_le_iff)

theorem calculate_interpolation_raw_range_witness:
  "(0::real) \<le> 3 \<and> (0::real) \<le> 1 / 2 \<and>
     0 \<le> calculate_interpolation_raw 7 3 (1 / 2) \<and> calculate_interpolation_raw 7 3 (1 / 2) \<le> 2"
  using calculate_interpolation_raw_range [of 3 "1 / 2" 7] by simp

section \<open>The frequency\<close>


section \<open>The turning time\<close>

lemma turning_time_arg:
  fixes \<omega> \<gamma> :: real
  assumes "0 < \<omega>" "0 < \<gamma>"
  shows "\<omega> / \<gamma> - sqrt (\<gamma>\<^sup>2 + \<omega>\<^sup>2) / \<gamma> = - ((\<gamma> / \<omega>) / (1 + sqrt (1 + (\<gamma> / \<omega>)\<^sup>2)))"
proof -
  define R where "R = sqrt (\<gamma>\<^sup>2 + \<omega>\<^sup>2)"
  have R2: "R\<^sup>2 = \<gamma>\<^sup>2 + \<omega>\<^sup>2" unfolding R_def by simp
  have Rpos: "0 < R" unfolding R_def using assms by (simp add: sum_power2_gt_zero_iff)
  have "1 + (\<gamma> / \<omega>)\<^sup>2 = (\<gamma>\<^sup>2 + \<omega>\<^sup>2) / \<omega>\<^sup>2"
    using assms by (simp add: power_divide field_simps)
  then have "sqrt (1 + (\<gamma> / \<omega>)\<^sup>2) = R / \<omega>"
    unfolding R_def using assms by (simp add: real_sqrt_divide)
  then have "(\<gamma> / \<omega>) / (1 + sqrt (1 + (\<gamma> / \<omega>)\<^sup>2)) = \<gamma> / (\<omega> + R)"
    using assms Rpos by (simp add: field_simps)
  also have "\<dots> = (R - \<omega>) / \<gamma>"
  proof -
    have "\<gamma> * \<gamma> = (R - \<omega>) * (\<omega> + R)"
      using R2 by (simp add: power2_eq_square algebra_simps)
    then show ?thesis using assms Rpos by (simp add: field_simps)
  qed
  finally show ?thesis unfolding R_def by (simp add: diff_divide_distrib)
qed

text \<open>The half-angle formula turns the turning time into \<open>(\<pi> - arctan (\<gamma>/\<omega>)) / \<omega>\<close>.\<close>

lemma turning_time_closed:
  assumes "0 < \<omega>" "0 < \<gamma>"
  shows "calculate_turning_time \<omega> \<gamma> = (pi - arctan (\<gamma> / \<omega>)) / \<omega>"
  unfolding calculate_turning_time_def turning_time_arg [OF assms]
  using arctan_half [of "\<gamma> / \<omega>"] assms
  by (simp add: arctan_minus field_simps)

lemma DERIV_calculate_interpolation_raw:
  "DERIV (calculate_interpolation_raw \<omega> \<gamma>) t :>
     exp (- \<gamma> * t) * (\<gamma> * cos (\<omega> * t) + \<omega> * sin (\<omega> * t))"
proof -
  have "((\<lambda>t. 1 - exp (- \<gamma> * t) * cos (\<omega> * t)) has_real_derivative
          exp (- \<gamma> * t) * (\<gamma> * cos (\<omega> * t) + \<omega> * sin (\<omega> * t))) (at t)"
    by (auto intro!: derivative_eq_intros simp: algebra_simps)
  moreover have "calculate_interpolation_raw \<omega> \<gamma> = (\<lambda>t. 1 - exp (- \<gamma> * t) * cos (\<omega> * t))"
    by (rule ext) (simp add: calculate_interpolation_raw_def)
  ultimately show ?thesis by simp
qed

lemma continuous_on_calculate_interpolation_raw:
  "continuous_on A (calculate_interpolation_raw \<omega> \<gamma>)"
  by (rule DERIV_continuous_on [OF has_field_derivative_at_within])
     (rule DERIV_calculate_interpolation_raw)

lemma sqrt_sum_arctan:
  fixes \<omega> \<gamma> :: real
  assumes "0 < \<omega>"
  shows "sqrt (1 + (\<gamma> / \<omega>)\<^sup>2) = sqrt (\<gamma>\<^sup>2 + \<omega>\<^sup>2) / \<omega>"
proof -
  have "1 + (\<gamma> / \<omega>)\<^sup>2 = (\<gamma>\<^sup>2 + \<omega>\<^sup>2) / \<omega>\<^sup>2"
    using assms by (simp add: power_divide field_simps)
  then show ?thesis using assms by (simp add: real_sqrt_divide)
qed

lemma slope_as_sine:
  fixes \<omega> \<gamma> :: real
  assumes "0 < \<omega>"
  shows "\<gamma> * cos x + \<omega> * sin x = sqrt (\<gamma>\<^sup>2 + \<omega>\<^sup>2) * sin (x + arctan (\<gamma> / \<omega>))"
proof -
  define R where "R = sqrt (\<gamma>\<^sup>2 + \<omega>\<^sup>2)"
  have Rpos: "0 < R" unfolding R_def using assms by (simp add: sum_power2_gt_zero_iff)
  have c: "cos (arctan (\<gamma> / \<omega>)) = \<omega> / R"
    using assms by (simp add: cos_arctan sqrt_sum_arctan R_def)
  have s: "sin (arctan (\<gamma> / \<omega>)) = \<gamma> / R"
    using assms by (simp add: sin_arctan sqrt_sum_arctan R_def)
  show ?thesis
    unfolding R_def [symmetric] sin_add c s using Rpos by (simp add: field_simps)
qed

lemma turning_time_angle:
  assumes "0 < \<omega>" "0 < \<gamma>"
  shows "\<omega> * calculate_turning_time \<omega> \<gamma> = pi - arctan (\<gamma> / \<omega>)"
  using assms by (simp add: turning_time_closed)


lemma slope_pos_before:
  assumes "0 < \<omega>" "0 < \<gamma>"
    and "calculate_turning_time \<omega> \<gamma> - pi / \<omega> < t" "t < calculate_turning_time \<omega> \<gamma>"
  shows "0 < \<gamma> * cos (\<omega> * t) + \<omega> * sin (\<omega> * t)"
proof -
  have "\<omega> * (calculate_turning_time \<omega> \<gamma> - pi / \<omega>) < \<omega> * t"
       "\<omega> * t < \<omega> * calculate_turning_time \<omega> \<gamma>"
    using assms by simp_all
  then have "0 < \<omega> * t + arctan (\<gamma> / \<omega>)" "\<omega> * t + arctan (\<gamma> / \<omega>) < pi"
    using assms(1) by (simp_all add: turning_time_angle [OF assms(1,2)] right_diff_distrib)
  then have "0 < sin (\<omega> * t + arctan (\<gamma> / \<omega>))" by (rule sin_gt_zero)
  moreover have "0 < sqrt (\<gamma>\<^sup>2 + \<omega>\<^sup>2)" using assms by (simp add: sum_power2_gt_zero_iff)
  ultimately show ?thesis unfolding slope_as_sine [OF assms(1)] by simp
qed

lemma slope_neg_after:
  assumes "0 < \<omega>" "0 < \<gamma>"
    and "calculate_turning_time \<omega> \<gamma> < t" "t < calculate_turning_time \<omega> \<gamma> + pi / \<omega>"
  shows "\<gamma> * cos (\<omega> * t) + \<omega> * sin (\<omega> * t) < 0"
proof -
  have "\<omega> * calculate_turning_time \<omega> \<gamma> < \<omega> * t"
       "\<omega> * t < \<omega> * (calculate_turning_time \<omega> \<gamma> + pi / \<omega>)"
    using assms by simp_all
  then have "pi < \<omega> * t + arctan (\<gamma> / \<omega>)" "\<omega> * t + arctan (\<gamma> / \<omega>) < 2 * pi"
    using assms(1) by (simp_all add: turning_time_angle [OF assms(1,2)] distrib_left)
  then have "sin (\<omega> * t + arctan (\<gamma> / \<omega>)) < 0" by (rule sin_lt_zero)
  moreover have "0 < sqrt (\<gamma>\<^sup>2 + \<omega>\<^sup>2)" using assms by (simp add: sum_power2_gt_zero_iff)
  ultimately show ?thesis unfolding slope_as_sine [OF assms(1)] by (simp add: mult_pos_neg)
qed

lemma raw_increasing_before:
  assumes "0 < \<omega>" "0 < \<gamma>"
    and "calculate_turning_time \<omega> \<gamma> - pi / \<omega> \<le> a" "a < b" "b \<le> calculate_turning_time \<omega> \<gamma>"
  shows "calculate_interpolation_raw \<omega> \<gamma> a < calculate_interpolation_raw \<omega> \<gamma> b"
proof (rule DERIV_pos_imp_increasing_open [OF \<open>a < b\<close>])
  fix x assume "a < x" "x < b"
  then have "0 < \<gamma> * cos (\<omega> * x) + \<omega> * sin (\<omega> * x)"
    using assms by (intro slope_pos_before) simp_all
  then have "0 < exp (- \<gamma> * x) * (\<gamma> * cos (\<omega> * x) + \<omega> * sin (\<omega> * x))" by simp
  then show "\<exists>y. DERIV (calculate_interpolation_raw \<omega> \<gamma>) x :> y \<and> 0 < y"
    using DERIV_calculate_interpolation_raw by blast
qed (rule continuous_on_calculate_interpolation_raw)

lemma raw_decreasing_after:
  assumes "0 < \<omega>" "0 < \<gamma>"
    and "calculate_turning_time \<omega> \<gamma> \<le> a" "a < b" "b \<le> calculate_turning_time \<omega> \<gamma> + pi / \<omega>"
  shows "calculate_interpolation_raw \<omega> \<gamma> b < calculate_interpolation_raw \<omega> \<gamma> a"
proof (rule DERIV_neg_imp_decreasing_open [OF \<open>a < b\<close>])
  fix x assume "a < x" "x < b"
  then have "\<gamma> * cos (\<omega> * x) + \<omega> * sin (\<omega> * x) < 0"
    using assms by (intro slope_neg_after) simp_all
  then have "exp (- \<gamma> * x) * (\<gamma> * cos (\<omega> * x) + \<omega> * sin (\<omega> * x)) < 0"
    by (simp add: mult_pos_neg)
  then show "\<exists>y. DERIV (calculate_interpolation_raw \<omega> \<gamma>) x :> y \<and> y < 0"
    using DERIV_calculate_interpolation_raw by blast
qed (rule continuous_on_calculate_interpolation_raw)

lemma raw_max_at_turning_time:
  assumes "0 < \<omega>" "0 < \<gamma>"
    and "\<bar>t - calculate_turning_time \<omega> \<gamma>\<bar> \<le> pi / \<omega>"
  shows "calculate_interpolation_raw \<omega> \<gamma> t
           \<le> calculate_interpolation_raw \<omega> \<gamma> (calculate_turning_time \<omega> \<gamma>)"
proof -
  consider "t < calculate_turning_time \<omega> \<gamma>" | "t = calculate_turning_time \<omega> \<gamma>"
    | "calculate_turning_time \<omega> \<gamma> < t" by linarith
  then show ?thesis
  proof cases
    case 1
    then show ?thesis
      using raw_increasing_before [OF assms(1,2), of t "calculate_turning_time \<omega> \<gamma>"] assms(3)
      by simp
  next
    case 2
    then show ?thesis by simp
  next
    case 3
    then show ?thesis
      using raw_decreasing_after [OF assms(1,2), of "calculate_turning_time \<omega> \<gamma>" t] assms(3)
      by simp
  qed
qed

lemma turning_time_bounds:
  assumes "0 < \<omega>" "0 < \<gamma>"
  shows "pi / (2 * \<omega>) < calculate_turning_time \<omega> \<gamma>" "calculate_turning_time \<omega> \<gamma> < pi / \<omega>"
proof -
  have "0 < arctan (\<gamma> / \<omega>)" using assms by simp
  moreover have "arctan (\<gamma> / \<omega>) < pi / 2" by (rule arctan_ubound)
  ultimately show "pi / (2 * \<omega>) < calculate_turning_time \<omega> \<gamma>"
      "calculate_turning_time \<omega> \<gamma> < pi / \<omega>"
    using assms(1) unfolding turning_time_closed [OF assms]
    by (simp_all add: field_simps)
qed

section \<open>The overshoot at the turning time\<close>

lemma cos_at_turning_time:
  assumes "0 < \<omega>" "0 < \<gamma>"
  shows "cos (\<omega> * calculate_turning_time \<omega> \<gamma>) = - (\<omega> / sqrt (\<gamma>\<^sup>2 + \<omega>\<^sup>2))"
  unfolding turning_time_angle [OF assms] using assms(1)
  by (simp add: cos_arctan sqrt_sum_arctan)

lemma cos_at_turning_time_neg:
  assumes "0 < \<omega>" "0 < \<gamma>"
  shows "cos (\<omega> * calculate_turning_time \<omega> \<gamma>) < 0"
proof -
  have "0 < sqrt (\<gamma>\<^sup>2 + \<omega>\<^sup>2)" using assms by (simp add: sum_power2_gt_zero_iff)
  then show ?thesis unfolding cos_at_turning_time [OF assms] using assms(1) by simp
qed

lemma peak_overshoot_closed:
  assumes "0 < \<omega>" "0 < \<gamma>"
  shows "peak_overshoot \<omega> \<gamma> =
           exp (- \<gamma> * calculate_turning_time \<omega> \<gamma>) * (\<omega> / sqrt (\<gamma>\<^sup>2 + \<omega>\<^sup>2))"
  by (simp add: peak_overshoot_def calculate_interpolation_raw_def cos_at_turning_time [OF assms])

lemma peak_overshoot_pos:
  assumes "0 < \<omega>" "0 < \<gamma>"
  shows "0 < peak_overshoot \<omega> \<gamma>"
proof -
  have "0 < sqrt (\<gamma>\<^sup>2 + \<omega>\<^sup>2)" using assms by (simp add: sum_power2_gt_zero_iff)
  then show ?thesis unfolding peak_overshoot_closed [OF assms] using assms(1) by simp
qed

lemma peak_overshoot_le_exp:
  assumes "0 < \<omega>" "0 < \<gamma>"
  shows "peak_overshoot \<omega> \<gamma> \<le> exp (- \<gamma> * (pi / (2 * \<omega>)))"
proof -
  have R: "0 < sqrt (\<gamma>\<^sup>2 + \<omega>\<^sup>2)" using assms by (simp add: sum_power2_gt_zero_iff)
  have "\<omega> \<le> sqrt (\<gamma>\<^sup>2 + \<omega>\<^sup>2)"
    using assms by (intro real_le_rsqrt) simp
  then have q: "\<omega> / sqrt (\<gamma>\<^sup>2 + \<omega>\<^sup>2) \<le> 1" using R by simp
  have "\<gamma> * (pi / (2 * \<omega>)) \<le> \<gamma> * calculate_turning_time \<omega> \<gamma>"
    using turning_time_bounds(1) [OF assms] assms(2) by (intro mult_left_mono) simp_all
  then have e: "exp (- \<gamma> * calculate_turning_time \<omega> \<gamma>) \<le> exp (- \<gamma> * (pi / (2 * \<omega>)))"
    by simp
  have "peak_overshoot \<omega> \<gamma> \<le> exp (- \<gamma> * (pi / (2 * \<omega>))) * 1"
    unfolding peak_overshoot_closed [OF assms]
    by (rule mult_mono) (use e q assms R in simp_all)
  then show ?thesis by simp
qed

text \<open>More damping gives a strictly lower peak.\<close>

lemma peak_overshoot_antitone:
  assumes "0 < \<omega>" "0 < \<gamma>1" "\<gamma>1 < \<gamma>2"
  shows "peak_overshoot \<omega> \<gamma>2 < peak_overshoot \<omega> \<gamma>1"
proof -
  define t1 where "t1 = calculate_turning_time \<omega> \<gamma>1"
  define t2 where "t2 = calculate_turning_time \<omega> \<gamma>2"
  have g2: "0 < \<gamma>2" using assms by simp
  have t2: "pi / (2 * \<omega>) < t2" "t2 < pi / \<omega>"
    unfolding t2_def using turning_time_bounds [OF assms(1) g2] by simp_all
  have t1: "pi / (2 * \<omega>) < t1" "t1 < pi / \<omega>"
    unfolding t1_def using turning_time_bounds [OF assms(1,2)] by simp_all
  have "0 < pi / (2 * \<omega>)" using assms(1) by simp
  then have t2pos: "0 < t2" using t2(1) by linarith
  have c: "cos (\<omega> * t2) < 0"
    unfolding t2_def by (rule cos_at_turning_time_neg [OF assms(1) g2])
  have "\<gamma>1 * t2 < \<gamma>2 * t2" using assms(3) t2pos by simp
  then have "exp (- \<gamma>2 * t2) < exp (- \<gamma>1 * t2)" by simp
  then have "exp (- \<gamma>1 * t2) * cos (\<omega> * t2) < exp (- \<gamma>2 * t2) * cos (\<omega> * t2)"
    using c by (simp add: mult_less_cancel_right)
  then have "calculate_interpolation_raw \<omega> \<gamma>2 t2 < calculate_interpolation_raw \<omega> \<gamma>1 t2"
    by (simp add: calculate_interpolation_raw_def)
  moreover have "calculate_interpolation_raw \<omega> \<gamma>1 t2 \<le> calculate_interpolation_raw \<omega> \<gamma>1 t1"
  proof -
    have "pi / (2 * \<omega>) = pi / \<omega> / 2" by simp
    then have "\<bar>t2 - t1\<bar> \<le> pi / \<omega>" using t1 t2 \<open>0 < pi / (2 * \<omega>)\<close> by linarith
    then show ?thesis unfolding t1_def by (rule raw_max_at_turning_time [OF assms(1,2)])
  qed
  ultimately show ?thesis by (simp add: peak_overshoot_def t1_def t2_def)
qed

lemma naive_gamma_pos:
  assumes "0 < \<omega>" "0 < overshoot s" "overshoot s < 1"
  shows "0 < naive_gamma s \<omega>"
proof -
  have "ln (overshoot s) < 0" using assms by simp
  then show ?thesis unfolding naive_gamma_def using assms(1)
    by (simp add: field_simps mult_pos_neg)
qed

text \<open>
  The seed is chosen so that the curve is \<open>1 + overshoot\<close> at \<open>\<pi>/\<omega>\<close>; the peak comes
  earlier and is strictly higher, so the seed always overshoots the target.
\<close>

lemma peak_overshoot_naive_gamma:
  assumes "0 < \<omega>" "0 < overshoot s" "overshoot s < 1"
  shows "overshoot s < peak_overshoot \<omega> (naive_gamma s \<omega>)"
proof -
  define \<gamma> where "\<gamma> = naive_gamma s \<omega>"
  have g: "0 < \<gamma>" unfolding \<gamma>_def by (rule naive_gamma_pos [OF assms])
  have "\<gamma> * (pi / \<omega>) = - ln (overshoot s)"
    unfolding \<gamma>_def naive_gamma_def using assms(1) by simp
  then have "exp (- \<gamma> * (pi / \<omega>)) = overshoot s" using assms(2) by simp
  moreover have "\<omega> * (pi / \<omega>) = pi" using assms(1) by simp
  ultimately have at_half: "calculate_interpolation_raw \<omega> \<gamma> (pi / \<omega>) = 1 + overshoot s"
    by (simp add: calculate_interpolation_raw_def)
  have "0 < pi / \<omega>" using assms(1) by simp
  then have "calculate_interpolation_raw \<omega> \<gamma> (pi / \<omega>)
      < calculate_interpolation_raw \<omega> \<gamma> (calculate_turning_time \<omega> \<gamma>)"
    using turning_time_bounds [OF assms(1) g] assms(1)
    by (intro raw_decreasing_after [OF assms(1) g]) (simp_all add: less_imp_le [OF less_trans, of 0 "pi / (2 * \<omega>)"])
  then show ?thesis unfolding \<gamma>_def [symmetric] peak_overshoot_def at_half by simp
qed

section \<open>The damping search\<close>

lemma gamma_loop_unfold:
  "gamma_loop ov \<omega> p s \<gamma> d =
     (if deviation_at ov \<omega> (\<gamma> + s * p) < d
      then gamma_loop ov \<omega> p s (\<gamma> + s * p) (deviation_at ov \<omega> (\<gamma> + s * p))
      else Some \<gamma>)"
  by (subst gamma_loop.simps) (simp add: Let_def deviation_at_def peak_overshoot_def)

lemma calculate_gamma_unfold:
  "calculate_gamma s \<omega> =
     gamma_loop (overshoot s) \<omega> 0.01 (search_sign s \<omega>) (naive_gamma s \<omega>)
       (deviation_at (overshoot s) \<omega> (naive_gamma s \<omega>))"
  by (simp add: calculate_gamma_def Let_def search_sign_def naive_gamma_def deviation_at_def
      peak_overshoot_def)

lemma gamma_loop_chain:
  assumes "gamma_loop ov \<omega> p s \<gamma> d = Some g"
  shows "d = deviation_at ov \<omega> \<gamma> \<longrightarrow>
     (\<exists>k. g = ((\<lambda>x. x + s * p) ^^ k) \<gamma> \<and>
        (\<forall>j<k. deviation_at ov \<omega> (((\<lambda>x. x + s * p) ^^ Suc j) \<gamma>)
                 < deviation_at ov \<omega> (((\<lambda>x. x + s * p) ^^ j) \<gamma>)) \<and>
        \<not> deviation_at ov \<omega> (g + s * p) < deviation_at ov \<omega> g)"
  using assms
proof (induction ov \<omega> p s \<gamma> d g rule: gamma_loop.raw_induct [rotated 1, consumes 1])
  case (1 loop ov \<omega> p s \<gamma> d g)
  show ?case
  proof
    assume d: "d = deviation_at ov \<omega> \<gamma>"
    let ?step = "\<lambda>x. x + s * p"
    show "\<exists>k. g = (?step ^^ k) \<gamma> \<and>
        (\<forall>j<k. deviation_at ov \<omega> ((?step ^^ Suc j) \<gamma>) < deviation_at ov \<omega> ((?step ^^ j) \<gamma>)) \<and>
        \<not> deviation_at ov \<omega> (g + s * p) < deviation_at ov \<omega> g"
    proof (cases "deviation_at ov \<omega> (\<gamma> + s * p) < d")
      case True
      with 1(2) have "loop ov \<omega> p s (\<gamma> + s * p) (deviation_at ov \<omega> (\<gamma> + s * p)) = Some g"
        by (simp add: Let_def deviation_at_def peak_overshoot_def)
      from 1(1) [OF this] obtain k where k: "g = (?step ^^ k) (\<gamma> + s * p)"
        "\<forall>j<k. deviation_at ov \<omega> ((?step ^^ Suc j) (\<gamma> + s * p))
                 < deviation_at ov \<omega> ((?step ^^ j) (\<gamma> + s * p))"
        "\<not> deviation_at ov \<omega> (g + s * p) < deviation_at ov \<omega> g"
        by blast
      have shift: "(?step ^^ j) (\<gamma> + s * p) = (?step ^^ Suc j) \<gamma>" for j
        using funpow_swap1 [of ?step j \<gamma>] by simp
      have "\<forall>j<Suc k. deviation_at ov \<omega> ((?step ^^ Suc j) \<gamma>) < deviation_at ov \<omega> ((?step ^^ j) \<gamma>)"
      proof (intro allI impI)
        fix j assume "j < Suc k"
        show "deviation_at ov \<omega> ((?step ^^ Suc j) \<gamma>) < deviation_at ov \<omega> ((?step ^^ j) \<gamma>)"
        proof (cases j)
          case 0
          then show ?thesis using True d by simp
        next
          case (Suc i)
          then have "i < k" using \<open>j < Suc k\<close> by simp
          then show ?thesis using k(2) Suc unfolding shift by blast
        qed
      qed
      moreover have "g = (?step ^^ Suc k) \<gamma>" using k(1) unfolding shift .
      ultimately show ?thesis using k(3) by blast
    next
      case False
      with 1(2) have "g = \<gamma>"
        by (simp add: Let_def deviation_at_def peak_overshoot_def)
      then have "g = (?step ^^ 0) \<gamma>" by simp
      moreover have "\<not> deviation_at ov \<omega> (g + s * p) < deviation_at ov \<omega> g"
        using False d \<open>g = \<gamma>\<close> by simp
      ultimately show ?thesis by blast
    qed
  qed
qed

text \<open>
  An upward search (\<open>sign = 1\<close>) from a positive \<open>\<gamma>\<close> stops: once \<open>\<gamma>\<close> has passed a
  \<open>\<Gamma>\<close> whose peak is at or below the target, the next step moves the peak further
  below it.
\<close>

lemma gamma_loop_up_terminates:
  assumes "0 < \<omega>" "0 < p" "0 < \<Gamma>" "peak_overshoot \<omega> \<Gamma> \<le> ov"
  shows "0 < \<gamma> \<Longrightarrow> \<Gamma> - \<gamma> \<le> real k * p \<Longrightarrow>
           \<exists>g. gamma_loop ov \<omega> p 1 \<gamma> (deviation_at ov \<omega> \<gamma>) = Some g \<and> \<gamma> \<le> g"
proof (induction k arbitrary: \<gamma>)
  case 0
  then have "\<Gamma> \<le> \<gamma>" by simp
  then have "peak_overshoot \<omega> \<gamma> \<le> peak_overshoot \<omega> \<Gamma>"
    using peak_overshoot_antitone [OF assms(1,3), of \<gamma>] by (cases "\<Gamma> = \<gamma>") auto
  moreover have "peak_overshoot \<omega> (\<gamma> + p) < peak_overshoot \<omega> \<gamma>"
    using peak_overshoot_antitone [OF assms(1) \<open>0 < \<gamma>\<close>, of "\<gamma> + p"] assms(2) by simp
  ultimately have "\<not> deviation_at ov \<omega> (\<gamma> + 1 * p) < deviation_at ov \<omega> \<gamma>"
    using assms(4) by (simp add: deviation_at_def)
  then show ?case by (subst gamma_loop_unfold) simp
next
  case (Suc k)
  show ?case
  proof (cases "deviation_at ov \<omega> (\<gamma> + 1 * p) < deviation_at ov \<omega> \<gamma>")
    case True
    have "0 < \<gamma> + 1 * p" using Suc.prems(1) assms(2) by simp
    moreover have "\<Gamma> - (\<gamma> + 1 * p) \<le> real k * p"
      using Suc.prems(2) by (simp add: algebra_simps)
    ultimately obtain g where
      "gamma_loop ov \<omega> p 1 (\<gamma> + 1 * p) (deviation_at ov \<omega> (\<gamma> + 1 * p)) = Some g"
      "\<gamma> + 1 * p \<le> g"
      using Suc.IH by blast
    then show ?thesis using True assms(2) by (subst gamma_loop_unfold) simp
  next
    case False
    then show ?thesis by (subst gamma_loop_unfold) simp
  qed
qed

text \<open>
  The step relation and the partial function describe the same loop: run from any
  state the relation reaches, the loop returns what \<^verbatim>\<open>calculate_gamma\<close> returns.
\<close>

lemma search_state_gamma_loop:
  assumes "search_state s \<omega> \<gamma> d"
  shows "gamma_loop (overshoot s) \<omega> 0.01 (search_sign s \<omega>) \<gamma> d = calculate_gamma s \<omega>"
  using assms
proof (induction rule: search_state.induct)
  case seed
  show ?case by (simp add: calculate_gamma_unfold)
next
  case (accept \<gamma> deviation tuned_gamma tuned_deviation)
  then show ?case
    using gamma_loop_unfold [of "overshoot s" \<omega> "0.01" "search_sign s \<omega>" \<gamma> deviation]
    by simp
qed

lemma search_sign_valid:
  assumes "0 < \<omega>" "0 < overshoot s" "overshoot s < 1"
  shows "search_sign s \<omega> = 1"
  using peak_overshoot_naive_gamma [OF assms] by (simp add: search_sign_def)

lemma peak_overshoot_twice_naive:
  assumes "0 < \<omega>" "0 < overshoot s" "overshoot s < 1"
  shows "peak_overshoot \<omega> (2 * naive_gamma s \<omega>) \<le> overshoot s"
proof -
  have g: "0 < 2 * naive_gamma s \<omega>" using naive_gamma_pos [OF assms] by simp
  have "2 * naive_gamma s \<omega> * (pi / (2 * \<omega>)) = - ln (overshoot s)"
    unfolding naive_gamma_def using assms(1) by simp
  then have "exp (- (2 * naive_gamma s \<omega>) * (pi / (2 * \<omega>))) = overshoot s"
    using assms(2) by simp
  then show ?thesis using peak_overshoot_le_exp [OF assms(1) g] by simp
qed

lemma calculate_gamma_terminates:
  assumes "0 < \<omega>" "0 < overshoot s" "overshoot s < 1"
  shows "\<exists>g. calculate_gamma s \<omega> = Some g \<and> naive_gamma s \<omega> \<le> g"
proof -
  have g0: "0 < naive_gamma s \<omega>" by (rule naive_gamma_pos [OF assms])
  have g2: "0 < 2 * naive_gamma s \<omega>" using g0 by simp
  have "naive_gamma s \<omega> / 0.01 \<le> real (nat \<lceil>naive_gamma s \<omega> / 0.01\<rceil>)"
    by linarith
  then have "2 * naive_gamma s \<omega> - naive_gamma s \<omega> \<le> real (nat \<lceil>naive_gamma s \<omega> / 0.01\<rceil>) * 0.01"
    by (simp add: field_simps)
  from gamma_loop_up_terminates [OF assms(1) _ g2 peak_overshoot_twice_naive [OF assms] g0 this]
  show ?thesis
    unfolding calculate_gamma_unfold search_sign_valid [OF assms] by simp
qed

lemma calculate_omega_pos:
  assumes "0 \<le> rest_position_runs s"
  shows "0 < calculate_omega s"
  using assms by (simp add: calculate_omega_def Let_def)

lemma chain_deviation_le:
  fixes dev :: "real \<Rightarrow> real"
  assumes "\<forall>j<k. dev ((step ^^ Suc j) x) < dev ((step ^^ j) x)"
  shows "dev ((step ^^ k) x) \<le> dev x"
  using assms
proof (induction k)
  case 0
  show ?case by simp
next
  case (Suc k)
  then have "dev ((step ^^ Suc k) x) < dev ((step ^^ k) x)" "dev ((step ^^ k) x) \<le> dev x"
    by simp_all
  then show ?case by linarith
qed

lemma search_state_chain:
  assumes "search_state s \<omega> \<gamma> d"
  shows "\<exists>k. \<gamma> = ((\<lambda>x. x + search_sign s \<omega> * 0.01) ^^ k) (naive_gamma s \<omega>) \<and>
     d = deviation_at (overshoot s) \<omega> \<gamma> \<and>
     (\<forall>j<k. deviation_at (overshoot s) \<omega> (((\<lambda>x. x + search_sign s \<omega> * 0.01) ^^ Suc j) (naive_gamma s \<omega>))
            < deviation_at (overshoot s) \<omega> (((\<lambda>x. x + search_sign s \<omega> * 0.01) ^^ j) (naive_gamma s \<omega>)))"
  using assms
proof (induction rule: search_state.induct)
  case seed
  have "naive_gamma s \<omega> = ((\<lambda>x. x + search_sign s \<omega> * 0.01) ^^ 0) (naive_gamma s \<omega>)" by simp
  then show ?case by blast
next
  case (accept \<gamma> deviation tuned_gamma tuned_deviation)
  let ?step = "\<lambda>x. x + search_sign s \<omega> * 0.01"
  let ?dev = "deviation_at (overshoot s) \<omega>"
  from accept.IH obtain k where k: "\<gamma> = (?step ^^ k) (naive_gamma s \<omega>)" "deviation = ?dev \<gamma>"
    "\<forall>j<k. ?dev ((?step ^^ Suc j) (naive_gamma s \<omega>)) < ?dev ((?step ^^ j) (naive_gamma s \<omega>))"
    by blast
  have g: "tuned_gamma = (?step ^^ Suc k) (naive_gamma s \<omega>)"
    using accept.hyps(2) k(1) by simp
  have "\<forall>j<Suc k. ?dev ((?step ^^ Suc j) (naive_gamma s \<omega>)) < ?dev ((?step ^^ j) (naive_gamma s \<omega>))"
  proof (intro allI impI)
    fix j assume "j < Suc k"
    then consider "j < k" | "j = k" by linarith
    then show "?dev ((?step ^^ Suc j) (naive_gamma s \<omega>)) < ?dev ((?step ^^ j) (naive_gamma s \<omega>))"
    proof cases
      case 1
      then show ?thesis using k(3) by blast
    next
      case 2
      then show ?thesis using accept.hyps(3,4) g k(1,2) by simp
    qed
  qed
  then show ?case using g accept.hyps(3) by blast
qed

text \<open>
  C3. The loop invariant of the search: whenever the loop head is reached with \<open>\<gamma>\<close>
  and \<open>deviation\<close>, \<open>\<gamma>\<close> is the seed after some number \<open>k\<close> of accepted steps,
  \<open>deviation\<close> is the deviation of \<open>\<gamma>\<close> from the wanted overshoot, each accepted step
  strictly decreased the deviation, and so the deviation at \<open>\<gamma>\<close> is at most the one at
  the seed. Whenever the search returns \<open>g\<close>, the same holds of \<open>g\<close>, and the step
  after \<open>g\<close> did not strictly improve: the loop stopped at the first such step and
  returned the last accepted \<open>\<gamma>\<close>.
\<close>

theorem search_monotone:
  "(\<forall>\<gamma> d. search_state s \<omega> \<gamma> d \<longrightarrow>
      (\<exists>k. \<gamma> = ((\<lambda>x. x + search_sign s \<omega> * 0.01) ^^ k) (naive_gamma s \<omega>) \<and>
         d = deviation_at (overshoot s) \<omega> \<gamma> \<and>
         (\<forall>j<k. deviation_at (overshoot s) \<omega> (((\<lambda>x. x + search_sign s \<omega> * 0.01) ^^ Suc j) (naive_gamma s \<omega>))
                < deviation_at (overshoot s) \<omega> (((\<lambda>x. x + search_sign s \<omega> * 0.01) ^^ j) (naive_gamma s \<omega>))) \<and>
         deviation_at (overshoot s) \<omega> \<gamma> \<le> deviation_at (overshoot s) \<omega> (naive_gamma s \<omega>))) \<and>
   (\<forall>g. calculate_gamma s \<omega> = Some g \<longrightarrow>
      (\<exists>k. g = ((\<lambda>x. x + search_sign s \<omega> * 0.01) ^^ k) (naive_gamma s \<omega>) \<and>
         (\<forall>j<k. deviation_at (overshoot s) \<omega> (((\<lambda>x. x + search_sign s \<omega> * 0.01) ^^ Suc j) (naive_gamma s \<omega>))
                < deviation_at (overshoot s) \<omega> (((\<lambda>x. x + search_sign s \<omega> * 0.01) ^^ j) (naive_gamma s \<omega>))) \<and>
         \<not> deviation_at (overshoot s) \<omega> (g + search_sign s \<omega> * 0.01) < deviation_at (overshoot s) \<omega> g \<and>
         deviation_at (overshoot s) \<omega> g \<le> deviation_at (overshoot s) \<omega> (naive_gamma s \<omega>)))"
proof (intro conjI allI impI)
  let ?step = "\<lambda>x. x + search_sign s \<omega> * 0.01"
  let ?dev = "deviation_at (overshoot s) \<omega>"
  let ?g0 = "naive_gamma s \<omega>"
  {
    fix \<gamma> d assume "search_state s \<omega> \<gamma> d"
    from search_state_chain [OF this]
    obtain k where k: "\<gamma> = (?step ^^ k) ?g0" "d = ?dev \<gamma>"
      "\<forall>j<k. ?dev ((?step ^^ Suc j) ?g0) < ?dev ((?step ^^ j) ?g0)"
      by blast
    have "?dev \<gamma> \<le> ?dev ?g0" unfolding k(1) by (rule chain_deviation_le [OF k(3)])
    with k show "\<exists>k. \<gamma> = (?step ^^ k) ?g0 \<and> d = ?dev \<gamma> \<and>
         (\<forall>j<k. ?dev ((?step ^^ Suc j) ?g0) < ?dev ((?step ^^ j) ?g0)) \<and> ?dev \<gamma> \<le> ?dev ?g0"
      by blast
  next
    fix g assume "calculate_gamma s \<omega> = Some g"
    from gamma_loop_chain [OF this [unfolded calculate_gamma_unfold]]
    obtain k where k: "g = (?step ^^ k) ?g0"
      "\<forall>j<k. ?dev ((?step ^^ Suc j) ?g0) < ?dev ((?step ^^ j) ?g0)"
      "\<not> ?dev (g + search_sign s \<omega> * 0.01) < ?dev g"
      by blast
    have "?dev g \<le> ?dev ?g0" unfolding k(1) by (rule chain_deviation_le [OF k(2)])
    with k show "\<exists>k. g = (?step ^^ k) ?g0 \<and>
         (\<forall>j<k. ?dev ((?step ^^ Suc j) ?g0) < ?dev ((?step ^^ j) ?g0)) \<and>
         \<not> ?dev (g + search_sign s \<omega> * 0.01) < ?dev g \<and> ?dev g \<le> ?dev ?g0"
      by blast
  }
qed

theorem search_monotone_witness:
  "search_state \<lparr>overshoot = 0.2, rest_position_runs = 4\<rparr> (11 * pi / 2)
     (naive_gamma \<lparr>overshoot = 0.2, rest_position_runs = 4\<rparr> (11 * pi / 2))
     (deviation_at 0.2 (11 * pi / 2) (naive_gamma \<lparr>overshoot = 0.2, rest_position_runs = 4\<rparr> (11 * pi / 2))) \<and>
   (\<exists>k. naive_gamma \<lparr>overshoot = 0.2, rest_position_runs = 4\<rparr> (11 * pi / 2)
          = ((\<lambda>x. x + search_sign \<lparr>overshoot = 0.2, rest_position_runs = 4\<rparr> (11 * pi / 2) * 0.01) ^^ k)
               (naive_gamma \<lparr>overshoot = 0.2, rest_position_runs = 4\<rparr> (11 * pi / 2))) \<and>
   (\<exists>g. calculate_gamma \<lparr>overshoot = 0.2, rest_position_runs = 4\<rparr> (11 * pi / 2) = Some g \<and>
     (\<exists>k. g = ((\<lambda>x. x + search_sign \<lparr>overshoot = 0.2, rest_position_runs = 4\<rparr> (11 * pi / 2) * 0.01) ^^ k)
               (naive_gamma \<lparr>overshoot = 0.2, rest_position_runs = 4\<rparr> (11 * pi / 2)) \<and>
        \<not> deviation_at 0.2 (11 * pi / 2)
             (g + search_sign \<lparr>overshoot = 0.2, rest_position_runs = 4\<rparr> (11 * pi / 2) * 0.01)
           < deviation_at 0.2 (11 * pi / 2) g \<and>
        deviation_at 0.2 (11 * pi / 2) g
          \<le> deviation_at 0.2 (11 * pi / 2) (naive_gamma \<lparr>overshoot = 0.2, rest_position_runs = 4\<rparr> (11 * pi / 2))))"
proof -
  let ?s = "\<lparr>overshoot = 0.2, rest_position_runs = 4\<rparr>"
  obtain g where g: "calculate_gamma ?s (11 * pi / 2) = Some g"
    using calculate_gamma_terminates [of "11 * pi / 2" ?s] by auto
  have st: "search_state ?s (11 * pi / 2) (naive_gamma ?s (11 * pi / 2))
          (deviation_at (overshoot ?s) (11 * pi / 2) (naive_gamma ?s (11 * pi / 2)))"
    by (rule search_state.seed)
  note m = search_monotone [of ?s "11 * pi / 2"]
  from m st have "\<exists>k. naive_gamma ?s (11 * pi / 2)
          = ((\<lambda>x. x + search_sign ?s (11 * pi / 2) * 0.01) ^^ k) (naive_gamma ?s (11 * pi / 2))"
    by blast
  moreover from m g have "\<exists>k. g = ((\<lambda>x. x + search_sign ?s (11 * pi / 2) * 0.01) ^^ k) (naive_gamma ?s (11 * pi / 2)) \<and>
        \<not> deviation_at (overshoot ?s) (11 * pi / 2) (g + search_sign ?s (11 * pi / 2) * 0.01)
           < deviation_at (overshoot ?s) (11 * pi / 2) g \<and>
        deviation_at (overshoot ?s) (11 * pi / 2) g
          \<le> deviation_at (overshoot ?s) (11 * pi / 2) (naive_gamma ?s (11 * pi / 2))"
    by blast
  ultimately show ?thesis using st g by auto
qed

text \<open>
  C4. For the settings \<open>rest_position_runs = 16\<close>, \<open>overshoot = 0.85\<close> the loop of the
  search breaks after finitely many iterations (it accepts some number \<open>k\<close> of steps of
  \<open>0.01\<close> from the seed and then stops), and \<^verbatim>\<open>calculate_params\<close> returns parameters
  with \<open>gamma > 0\<close> and \<open>omega > 0\<close>.
\<close>

theorem long_running_settings_converge:
  "\<exists>p k. calculate_params \<lparr>overshoot = 0.85, rest_position_runs = 16\<rparr> = Some p \<and>
       gamma p = ((\<lambda>x. x + 1 * 0.01) ^^ k)
                   (naive_gamma \<lparr>overshoot = 0.85, rest_position_runs = 16\<rparr> (omega p)) \<and>
       0 < gamma p \<and> 0 < omega p"
proof -
  let ?s = "\<lparr>overshoot = 0.85, rest_position_runs = 16\<rparr>"
  let ?w = "calculate_omega ?s"
  have w: "0 < ?w" by (rule calculate_omega_pos) simp
  have ov: "0 < overshoot ?s" "overshoot ?s < 1" by simp_all
  obtain g where g: "calculate_gamma ?s ?w = Some g" "naive_gamma ?s ?w \<le> g"
    using calculate_gamma_terminates [OF w ov] by blast
  from gamma_loop_chain [OF g(1) [unfolded calculate_gamma_unfold search_sign_valid [OF w ov]]]
  obtain k where k: "g = ((\<lambda>x. x + 1 * 0.01) ^^ k) (naive_gamma ?s ?w)" by blast
  have "0 < naive_gamma ?s ?w" by (rule naive_gamma_pos [OF w ov])
  then have gpos: "0 < g" using g(2) by linarith
  have "calculate_params ?s = Some \<lparr>omega = ?w, gamma = g\<rparr>"
    using g(1) by (simp add: calculate_params_def Let_def)
  moreover have "gamma \<lparr>omega = ?w, gamma = g\<rparr>
      = ((\<lambda>x. x + 1 * 0.01) ^^ k) (naive_gamma ?s (omega \<lparr>omega = ?w, gamma = g\<rparr>))"
    using k by simp
  moreover have "0 < gamma \<lparr>omega = ?w, gamma = g\<rparr>" "0 < omega \<lparr>omega = ?w, gamma = g\<rparr>"
    using gpos w by simp_all
  ultimately show ?thesis by blast
qed

section \<open>The turning time is the first maximum\<close>






section \<open>Numeric bounds\<close>

lemma arctan_lower_cubic:
  fixes x :: real
  assumes "0 \<le> x"
  shows "x - x ^ 3 / 3 \<le> arctan x"
proof -
  let ?f = "\<lambda>x::real. arctan x - (x - x ^ 3 / 3)"
  have "?f 0 \<le> ?f x"
  proof (rule DERIV_nonneg_imp_nondecreasing [OF assms])
    fix y :: real
    have "DERIV ?f y :> inverse (1 + y\<^sup>2) - (1 - y\<^sup>2)"
      by (auto intro!: derivative_eq_intros simp: DERIV_arctan)
    moreover have "0 \<le> inverse (1 + y\<^sup>2) - (1 - y\<^sup>2)"
    proof -
      have p: "0 < 1 + y\<^sup>2" by (simp add: add_pos_nonneg)
      have "(1 - y\<^sup>2) * (1 + y\<^sup>2) \<le> 1" by (simp add: algebra_simps)
      then have "1 - y\<^sup>2 \<le> 1 / (1 + y\<^sup>2)" using p by (simp add: pos_le_divide_eq)
      then show ?thesis by (simp add: inverse_eq_divide)
    qed
    ultimately show "\<exists>d. DERIV ?f y :> d \<and> 0 \<le> d" by blast
  qed
  then show ?thesis by simp
qed

lemma arctan_upper_quintic:
  fixes x :: real
  assumes "0 \<le> x"
  shows "arctan x \<le> x - x ^ 3 / 3 + x ^ 5 / 5"
proof -
  let ?f = "\<lambda>x::real. (x - x ^ 3 / 3 + x ^ 5 / 5) - arctan x"
  have "?f 0 \<le> ?f x"
  proof (rule DERIV_nonneg_imp_nondecreasing [OF assms])
    fix y :: real
    have "DERIV ?f y :> (1 - y\<^sup>2 + y ^ 4) - inverse (1 + y\<^sup>2)"
      by (auto intro!: derivative_eq_intros simp: DERIV_arctan)
    moreover have "0 \<le> (1 - y\<^sup>2 + y ^ 4) - inverse (1 + y\<^sup>2)"
    proof -
      have p: "0 < 1 + y\<^sup>2" by (simp add: add_pos_nonneg)
      have "(1 - y\<^sup>2 + y ^ 4) * (1 + y\<^sup>2) = 1 + y ^ 6" by (simp add: algebra_simps power2_eq_square power_numeral_reduce)
      then have "1 \<le> (1 - y\<^sup>2 + y ^ 4) * (1 + y\<^sup>2)" by simp
      then have "1 / (1 + y\<^sup>2) \<le> 1 - y\<^sup>2 + y ^ 4" using p by (simp add: pos_divide_le_eq)
      then show ?thesis by (simp add: inverse_eq_divide)
    qed
    ultimately show "\<exists>d. DERIV ?f y :> d \<and> 0 \<le> d" by blast
  qed
  then show ?thesis by simp
qed

lemma pi_bounds: "3.14 < pi" "pi < 3.142"
proof -
  have m: "pi = 16 * arctan (1 / 5) - 4 * arctan (1 / 239)"
    using machin by simp
  have l5: "1 / 5 - (1 / 5) ^ 3 / 3 \<le> arctan (1 / 5 :: real)"
    by (rule arctan_lower_cubic) simp
  have u5: "arctan (1 / 5 :: real) \<le> 1 / 5 - (1 / 5) ^ 3 / 3 + (1 / 5) ^ 5 / 5"
    by (rule arctan_upper_quintic) simp
  have l239: "1 / 239 - (1 / 239) ^ 3 / 3 \<le> arctan (1 / 239 :: real)"
    by (rule arctan_lower_cubic) simp
  have u239: "arctan (1 / 239 :: real) \<le> 1 / 239 - (1 / 239) ^ 3 / 3 + (1 / 239) ^ 5 / 5"
    by (rule arctan_upper_quintic) simp
  have l5': "(0.1973::real) \<le> arctan (1 / 5)"
    by (rule order_trans [OF _ l5]) (simp add: power_divide)
  have u5': "arctan (1 / 5) \<le> (0.1974::real)"
    by (rule order_trans [OF u5]) (simp add: power_divide)
  have l239': "(0.00418::real) \<le> arctan (1 / 239)"
    by (rule order_trans [OF _ l239]) (simp add: power_divide)
  have u239': "arctan (1 / 239) \<le> (0.00419::real)"
    by (rule order_trans [OF u239]) (simp add: power_divide)
  show "3.14 < pi" using l5' u239' unfolding m by simp
  show "pi < 3.142" using u5' l239' unfolding m by simp
qed

lemma exp_taylor_lower_nonneg:
  fixes x :: real
  assumes "0 \<le> x"
  shows "(\<Sum>m<n. x ^ m / fact m) \<le> exp x"
proof -
  obtain t where "exp x = (\<Sum>m<n. x ^ m / fact m) + (exp t / fact n) * x ^ n"
    using Maclaurin_exp_le [of x n] by blast
  moreover have "0 \<le> (exp t / fact n) * x ^ n" using assms by simp
  ultimately show ?thesis by linarith
qed

lemma exp_taylor_lower_even:
  fixes x :: real
  assumes "even n"
  shows "(\<Sum>m<n. x ^ m / fact m) \<le> exp x"
proof -
  obtain t where "exp x = (\<Sum>m<n. x ^ m / fact m) + (exp t / fact n) * x ^ n"
    using Maclaurin_exp_le [of x n] by blast
  moreover have "0 \<le> (exp t / fact n) * x ^ n"
    using assms by (simp add: zero_le_even_power)
  ultimately show ?thesis by linarith
qed

lemma cos_lower_quadratic:
  fixes x :: real
  shows "1 - x\<^sup>2 / 2 \<le> cos x"
proof -
  have "\<bar>sin (x / 2)\<bar> \<le> \<bar>x / 2\<bar>" by (rule abs_sin_x_le_abs_x)
  then have "(sin (x / 2))\<^sup>2 \<le> (x / 2)\<^sup>2" by (rule abs_le_square_iff [THEN iffD1])
  moreover have "cos x = 1 - 2 * (sin (x / 2))\<^sup>2"
    using cos_double_sin [of "x / 2"] by simp
  ultimately show ?thesis by (simp add: power_divide)
qed

lemma exp_minus_le:
  fixes x c :: real
  assumes "c \<le> exp x" "0 < c"
  shows "exp (- x) \<le> 1 / c"
proof -
  have "exp (- x) = 1 / exp x" by (simp add: exp_minus inverse_eq_divide)
  also have "\<dots> \<le> 1 / c" using assms by (intro divide_left_mono) simp_all
  finally show ?thesis .
qed

lemma exp_num_1: "exp (- (1.49::real)) \<le> 0.2256"
proof -
  have "(\<Sum>m<7. (1.49::real) ^ m / fact m) \<le> exp 1.49"
    by (rule exp_taylor_lower_nonneg) simp
  then have "(4.433::real) \<le> exp 1.49"
    by (simp add: lessThan_Suc eval_nat_numeral)
  then have "exp (- (1.49::real)) \<le> 1 / 4.433" by (rule exp_minus_le) simp
  also have "\<dots> \<le> (0.2256::real)" by simp
  finally show ?thesis .
qed

lemma exp_num_2: "(0.2277::real) \<le> exp (- 1.4775)"
proof -
  have "(\<Sum>m<8. (- 1.4775::real) ^ m / fact m) \<le> exp (- 1.4775)"
    by (rule exp_taylor_lower_even) simp
  then show ?thesis
    by (simp add: lessThan_Suc eval_nat_numeral)
qed

section \<open>Where the search stops\<close>

lemma funpow_add_const:
  fixes x c :: real
  shows "((\<lambda>x. x + c) ^^ k) x = x + real k * c"
  by (induction k) (simp_all add: algebra_simps)

lemma peak_overshoot_antitone_le:
  assumes "0 < \<omega>" "0 < \<gamma>1" "\<gamma>1 \<le> \<gamma>2"
  shows "peak_overshoot \<omega> \<gamma>2 \<le> peak_overshoot \<omega> \<gamma>1"
  using peak_overshoot_antitone [OF assms(1,2), of \<gamma>2] assms(3)
  by (cases "\<gamma>1 = \<gamma>2") auto

text \<open>One step of size \<open>p\<close> lowers the peak by at most the factor \<open>exp (p \<pi> / \<omega>)\<close>.\<close>

lemma peak_overshoot_step:
  assumes "0 < \<omega>" "0 < \<gamma>" "0 \<le> p"
  shows "peak_overshoot \<omega> \<gamma> \<le> exp (p * (pi / \<omega>)) * peak_overshoot \<omega> (\<gamma> + p)"
proof -
  define t where "t = calculate_turning_time \<omega> \<gamma>"
  define t' where "t' = calculate_turning_time \<omega> (\<gamma> + p)"
  have gp: "0 < \<gamma> + p" using assms by simp
  have t: "pi / (2 * \<omega>) < t" "t < pi / \<omega>"
    unfolding t_def using turning_time_bounds [OF assms(1,2)] by simp_all
  have t': "pi / (2 * \<omega>) < t'" "t' < pi / \<omega>"
    unfolding t'_def using turning_time_bounds [OF assms(1) gp] by simp_all
  have half: "0 < pi / (2 * \<omega>)" "pi / (2 * \<omega>) = pi / \<omega> / 2" using assms(1) by simp_all
  have "\<bar>t - t'\<bar> \<le> pi / \<omega>" using t t' half by linarith
  then have "calculate_interpolation_raw \<omega> (\<gamma> + p) t \<le> calculate_interpolation_raw \<omega> (\<gamma> + p) t'"
    unfolding t'_def by (rule raw_max_at_turning_time [OF assms(1) gp])
  then have le: "calculate_interpolation_raw \<omega> (\<gamma> + p) t - 1 \<le> peak_overshoot \<omega> (\<gamma> + p)"
    by (simp add: peak_overshoot_def t'_def)
  have "exp (- (\<gamma> + p) * t) = exp (- (p * t)) * exp (- \<gamma> * t)"
    by (simp add: exp_add [symmetric] algebra_simps)
  then have eq: "calculate_interpolation_raw \<omega> (\<gamma> + p) t - 1 = exp (- (p * t)) * peak_overshoot \<omega> \<gamma>"
    by (simp add: calculate_interpolation_raw_def peak_overshoot_def t_def)
  have "peak_overshoot \<omega> \<gamma> = exp (p * t) * (exp (- (p * t)) * peak_overshoot \<omega> \<gamma>)"
    by (simp add: exp_minus)
  also have "\<dots> \<le> exp (p * t) * peak_overshoot \<omega> (\<gamma> + p)"
    using le unfolding eq by (intro mult_left_mono) simp_all
  also have "\<dots> \<le> exp (p * (pi / \<omega>)) * peak_overshoot \<omega> (\<gamma> + p)"
  proof (rule mult_right_mono)
    have "p * t \<le> p * (pi / \<omega>)" using t(2) assms(3) by (intro mult_left_mono) simp_all
    then show "exp (p * t) \<le> exp (p * (pi / \<omega>))" by simp
    show "0 \<le> peak_overshoot \<omega> (\<gamma> + p)" using peak_overshoot_pos [OF assms(1) gp] by simp
  qed
  finally show ?thesis .
qed

text \<open>
  Where an upward search stops: the result is at or above the seed, the step after it
  is below the target, and the result is the seed or the step before it is above
  the target.
\<close>

lemma calculate_gamma_bracket:
  assumes "0 < \<omega>" "0 < overshoot s" "overshoot s < 1"
  shows "\<exists>g. calculate_gamma s \<omega> = Some g \<and> naive_gamma s \<omega> \<le> g \<and>
           peak_overshoot \<omega> (g + 0.01) < overshoot s \<and>
           (g = naive_gamma s \<omega> \<or>
            (naive_gamma s \<omega> \<le> g - 0.01 \<and> overshoot s < peak_overshoot \<omega> (g - 0.01)))"
proof -
  let ?g0 = "naive_gamma s \<omega>"
  let ?dev = "deviation_at (overshoot s) \<omega>"
  have g0: "0 < ?g0" by (rule naive_gamma_pos [OF assms])
  obtain g where g: "calculate_gamma s \<omega> = Some g" "?g0 \<le> g"
    using calculate_gamma_terminates [OF assms] by blast
  have gpos: "0 < g" using g0 g(2) by simp
  from gamma_loop_chain [OF g(1) [unfolded calculate_gamma_unfold search_sign_valid [OF assms]]]
  obtain k where k: "g = ((\<lambda>x. x + 1 * 0.01) ^^ k) ?g0"
    "\<forall>j<k. ?dev (((\<lambda>x. x + 1 * 0.01) ^^ Suc j) ?g0) < ?dev (((\<lambda>x. x + 1 * 0.01) ^^ j) ?g0)"
    "\<not> ?dev (g + 1 * 0.01) < ?dev g"
    by blast
  have stop: "peak_overshoot \<omega> (g + 0.01) < overshoot s"
  proof (rule ccontr)
    assume "\<not> peak_overshoot \<omega> (g + 0.01) < overshoot s"
    moreover have "peak_overshoot \<omega> (g + 0.01) < peak_overshoot \<omega> g"
      by (rule peak_overshoot_antitone [OF assms(1) gpos]) simp
    ultimately have "?dev (g + 0.01) < ?dev g" by (simp add: deviation_at_def)
    then show False using k(3) by simp
  qed
  have before: "g = ?g0 \<or> (?g0 \<le> g - 0.01 \<and> overshoot s < peak_overshoot \<omega> (g - 0.01))"
  proof (cases k)
    case 0
    then show ?thesis using k(1) by simp
  next
    case (Suc j)
    define g' where "g' = ?g0 + real j * 0.01"
    have gg': "g = g' + 0.01" unfolding k(1) Suc g'_def by (simp add: funpow_add_const algebra_simps)
    have g'pos: "0 < g'" "?g0 \<le> g'" unfolding g'_def using g0 by simp_all
    have "?dev g < ?dev g'"
      using k(2) [rule_format, of j] unfolding Suc k(1) g'_def
      by (simp add: funpow_add_const algebra_simps)
    moreover have "peak_overshoot \<omega> g < peak_overshoot \<omega> g'"
      unfolding gg' by (rule peak_overshoot_antitone [OF assms(1) g'pos(1)]) simp
    ultimately have "overshoot s < peak_overshoot \<omega> g'"
      by (simp add: deviation_at_def abs_if split: if_splits)
    then show ?thesis using g'pos(2) gg' by simp
  qed
  show ?thesis using g stop before by blast
qed

section \<open>The settings of the self-test\<close>

lemma calculate_omega_test: "calculate_omega \<lparr>overshoot = 0.2, rest_position_runs = 4\<rparr> = 11 * pi / 2"
  by (simp add: calculate_omega_def Let_def)

lemma omega_test_bounds: "17.27 < 11 * pi / 2" "11 * pi / 2 < 17.281"
  using pi_bounds by simp_all

lemma arctan_num: "arctan (0.57::real) \<le> 0.5204"
proof -
  have "arctan (0.57::real) \<le> 0.57 - 0.57 ^ 3 / 3 + 0.57 ^ 5 / 5"
    by (rule arctan_upper_quintic) simp
  also have "\<dots> \<le> 0.5204" by (simp add: power_divide)
  finally show ?thesis .
qed

lemma peak_overshoot_num: "peak_overshoot (11 * pi / 2) 9.84 < 0.2"
proof -
  let ?w = "11 * pi / 2 :: real"
  let ?G = "9.84 :: real"
  have w: "0 < ?w" by simp
  have G: "0 < ?G" by simp
  have "?G / ?w \<le> 0.57"
    using pi_bounds(1) by (simp add: field_simps)
  then have "arctan (?G / ?w) \<le> arctan 0.57" by (rule arctan_monotone')
  then have a: "arctan (?G / ?w) \<le> 0.5204" using arctan_num by linarith
  have "1.49 \<le> ?G * calculate_turning_time ?w ?G"
    unfolding turning_time_closed [OF w G] using a pi_bounds(1) by (simp add: field_simps)
  then have "exp (- ?G * calculate_turning_time ?w ?G) \<le> exp (- 1.49)" by simp
  then have e: "exp (- ?G * calculate_turning_time ?w ?G) \<le> 0.2256"
    using exp_num_1 by linarith
  have "(?w / 0.87)\<^sup>2 \<le> ?G\<^sup>2 + ?w\<^sup>2"
  proof -
    have "?w\<^sup>2 \<le> 17.281\<^sup>2"
      using omega_test_bounds(2) w by (intro power_mono) simp_all
    then show ?thesis by (simp add: power_divide power2_eq_square)
  qed
  then have "?w / 0.87 \<le> sqrt (?G\<^sup>2 + ?w\<^sup>2)" by (rule real_le_rsqrt)
  moreover have R: "0 < sqrt (?G\<^sup>2 + ?w\<^sup>2)" by (simp add: sum_power2_gt_zero_iff)
  ultimately have q: "?w / sqrt (?G\<^sup>2 + ?w\<^sup>2) \<le> 0.87"
    by (simp add: field_simps)
  have "peak_overshoot ?w ?G \<le> 0.2256 * 0.87"
    unfolding peak_overshoot_closed [OF w G]
    by (rule mult_mono [OF e q]) (use R in simp_all)
  then show ?thesis by simp
qed

lemma ln_5_lower: "(1.2::real) \<le> ln 5"
proof -
  have "(\<Sum>m<6. (- 1.2::real) ^ m / fact m) \<le> exp (- 1.2)"
    by (rule exp_taylor_lower_even) simp
  then have "(1 / 5::real) \<le> exp (- 1.2)"
    by (simp add: lessThan_Suc eval_nat_numeral)
  then have "ln (1 / 5::real) \<le> - 1.2"
    using ln_le_cancel_iff [of "1 / 5" "exp (- 1.2)"] by simp
  then show ?thesis by (simp add: ln_div)
qed

lemma naive_gamma_test:
  "6.6 \<le> naive_gamma \<lparr>overshoot = 0.2, rest_position_runs = 4\<rparr> (11 * pi / 2)"
proof -
  have "naive_gamma \<lparr>overshoot = 0.2, rest_position_runs = 4\<rparr> (11 * pi / 2) = 11 / 2 * ln 5"
    by (simp add: naive_gamma_def ln_div)
  then show ?thesis using ln_5_lower by simp
qed

lemma calculate_gamma_test:
  "\<exists>g. calculate_gamma \<lparr>overshoot = 0.2, rest_position_runs = 4\<rparr> (11 * pi / 2) = Some g \<and>
       6.6 \<le> g \<and> g < 9.85 \<and> peak_overshoot (11 * pi / 2) g < 0.21"
proof -
  let ?s = "\<lparr>overshoot = 0.2, rest_position_runs = 4\<rparr>"
  let ?w = "11 * pi / 2 :: real"
  have w: "0 < ?w" by simp
  have ov: "0 < overshoot ?s" "overshoot ?s < 1" by simp_all
  obtain g where g: "calculate_gamma ?s ?w = Some g" "naive_gamma ?s ?w \<le> g"
    "peak_overshoot ?w (g + 0.01) < 0.2"
    "g = naive_gamma ?s ?w \<or> (naive_gamma ?s ?w \<le> g - 0.01 \<and> 0.2 < peak_overshoot ?w (g - 0.01))"
    using calculate_gamma_bracket [OF w ov] by auto
  have lo: "6.6 \<le> g" using g(2) naive_gamma_test by linarith
  then have gpos: "0 < g" by simp
  have above: "0.2 < peak_overshoot ?w x \<Longrightarrow> x < 9.84" for x
  proof (rule ccontr)
    assume "0.2 < peak_overshoot ?w x" "\<not> x < 9.84"
    then have "peak_overshoot ?w x \<le> peak_overshoot ?w 9.84"
      by (intro peak_overshoot_antitone_le [OF w]) simp_all
    then show False using peak_overshoot_num \<open>0.2 < peak_overshoot ?w x\<close> by linarith
  qed
  have hi: "g < 9.85"
    using g(4)
  proof
    assume "g = naive_gamma ?s ?w"
    then have "0.2 < peak_overshoot ?w g"
      using peak_overshoot_naive_gamma [OF w ov] by simp
    then show ?thesis using above by fastforce
  next
    assume "naive_gamma ?s ?w \<le> g - 0.01 \<and> 0.2 < peak_overshoot ?w (g - 0.01)"
    then have "g - 0.01 < 9.84" using above by blast
    then show ?thesis by simp
  qed
  have "exp (0.01 * (pi / ?w)) = exp (0.02 / 11 :: real)" by simp
  also have "\<dots> \<le> 1 + 0.02 / 11 + (0.02 / 11)\<^sup>2" by (rule exp_bound) simp_all
  also have "\<dots> \<le> 1.01" by (simp add: power2_eq_square)
  finally have e: "exp (0.01 * (pi / ?w)) \<le> 1.01" .
  have "peak_overshoot ?w g \<le> exp (0.01 * (pi / ?w)) * peak_overshoot ?w (g + 0.01)"
    by (rule peak_overshoot_step [OF w gpos]) simp
  also have "\<dots> \<le> 1.01 * 0.2"
    using e g(3) peak_overshoot_pos [OF w, of "g + 0.01"] gpos
    by (intro mult_mono) simp_all
  finally have "peak_overshoot ?w g < 0.21" by simp
  then show ?thesis using g(1) lo hi by blast
qed

section \<open>The samples of the self-test\<close>

lemma normalized_sample_eq:
  "normalized_sample \<lparr>omega = 11 * pi / 2, gamma = g\<rparr> i
     = - (exp (- g * (real i / 100)) * cos (11 * pi / 2 * (real i / 100)))"
  by (simp add: normalized_sample_def calculate_interpolation_def calculate_interpolation_raw_def)

lemma cos_sample_sign:
  fixes i m :: nat
  assumes "200 * m < 11 * i + 100" "11 * i < 200 * m + 100"
  shows "even m \<Longrightarrow> 0 < cos (11 * pi / 2 * (real i / 100))"
    and "odd m \<Longrightarrow> cos (11 * pi / 2 * (real i / 100)) < 0"
proof -
  define y where "y = (11 * real i - 200 * real m) * pi / 200"
  have "real (200 * m) < real (11 * i + 100)" "real (11 * i) < real (200 * m + 100)"
    using assms by (simp_all only: of_nat_less_iff)
  then have r: "- 100 < 11 * real i - 200 * real m" "11 * real i - 200 * real m < 100"
    by simp_all
  have "- 100 * pi < (11 * real i - 200 * real m) * pi" "(11 * real i - 200 * real m) * pi < 100 * pi"
    using r by (simp_all only: mult_less_cancel_right_pos [OF pi_gt_zero])
  then have "- (pi / 2) < y" "y < pi / 2" unfolding y_def by simp_all
  then have c: "0 < cos y" by (rule cos_gt_zero_pi)
  have "11 * pi / 2 * (real i / 100) = y + real m * pi"
    unfolding y_def by (simp add: field_simps)
  then have "cos (11 * pi / 2 * (real i / 100)) = cos (y + real m * pi)"
    by (rule arg_cong)
  then have e: "cos (11 * pi / 2 * (real i / 100)) = cos y * (- 1) ^ m"
    by (simp only: cos_add cos_npi sin_npi mult_zero_right diff_zero)
  show "even m \<Longrightarrow> 0 < cos (11 * pi / 2 * (real i / 100))" unfolding e using c by simp
  show "odd m \<Longrightarrow> cos (11 * pi / 2 * (real i / 100)) < 0" unfolding e using c by simp
qed

lemma normalized_sample_sign:
  assumes "i < 100"
  shows "in_trough i \<Longrightarrow> normalized_sample \<lparr>omega = 11 * pi / 2, gamma = g\<rparr> i < 0"
    and "\<not> in_trough i \<Longrightarrow> 0 < normalized_sample \<lparr>omega = 11 * pi / 2, gamma = g\<rparr> i"
proof -
  consider "i < 10" | "10 \<le> i" "i < 28" | "28 \<le> i" "i < 46" | "46 \<le> i" "i < 64"
    | "64 \<le> i" "i < 82" | "82 \<le> i" "i < 100"
    using assms by linarith
  then have "(in_trough i \<longrightarrow> 0 < cos (11 * pi / 2 * (real i / 100))) \<and>
             (\<not> in_trough i \<longrightarrow> cos (11 * pi / 2 * (real i / 100)) < 0)"
  proof cases
    case 1
    then show ?thesis using cos_sample_sign(1) [of 0 i] by (simp add: in_trough_def)
  next
    case 2
    then show ?thesis using cos_sample_sign(2) [of 1 i] by (simp add: in_trough_def)
  next
    case 3
    then show ?thesis using cos_sample_sign(1) [of 2 i] by (simp add: in_trough_def)
  next
    case 4
    then show ?thesis using cos_sample_sign(2) [of 3 i] by (simp add: in_trough_def)
  next
    case 5
    then show ?thesis using cos_sample_sign(1) [of 4 i] by (simp add: in_trough_def)
  next
    case 6
    then show ?thesis using cos_sample_sign(2) [of 5 i] by (simp add: in_trough_def)
  qed
  then show "in_trough i \<Longrightarrow> normalized_sample \<lparr>omega = 11 * pi / 2, gamma = g\<rparr> i < 0"
    and "\<not> in_trough i \<Longrightarrow> 0 < normalized_sample \<lparr>omega = 11 * pi / 2, gamma = g\<rparr> i"
    unfolding normalized_sample_eq by (simp_all add: mult_pos_neg)
qed

lemma normalized_sample_le_peak:
  assumes "0 < g" "10 \<le> i" "i < 28"
  shows "normalized_sample \<lparr>omega = 11 * pi / 2, gamma = g\<rparr> i \<le> peak_overshoot (11 * pi / 2) g"
proof -
  let ?w = "11 * pi / 2 :: real"
  have w: "0 < ?w" by simp
  have e: "pi / (2 * ?w) = 1 / 11" "pi / ?w = 2 / 11" by simp_all
  have t: "1 / 11 < calculate_turning_time ?w g" "calculate_turning_time ?w g < 2 / 11"
    using turning_time_bounds [OF w assms(1)] unfolding e by simp_all
  define x where "x = real i / 100"
  have "10 \<le> real i" "real i \<le> 27" using assms(2,3) by simp_all
  then have "1 / 10 \<le> x" "x \<le> 27 / 100" unfolding x_def by simp_all
  then have "\<bar>x - calculate_turning_time ?w g\<bar> \<le> 2 / 11" using t by linarith
  then have "\<bar>real i / 100 - calculate_turning_time ?w g\<bar> \<le> pi / ?w"
    unfolding e x_def .
  from raw_max_at_turning_time [OF w assms(1) this]
  show ?thesis
    by (simp add: normalized_sample_def calculate_interpolation_def peak_overshoot_def)
qed

lemma cos_num: "(0.848::real) \<le> cos (7 * pi / 40)"
proof -
  have "0 \<le> 7 * pi / 40" "7 * pi / 40 \<le> 7 * 3.142 / 40"
    using pi_bounds(2) by simp_all
  then have "(7 * pi / 40)\<^sup>2 \<le> (7 * 3.142 / 40)\<^sup>2" by (intro power_mono) simp_all
  then have "1 - (7 * 3.142 / 40)\<^sup>2 / 2 \<le> 1 - (7 * pi / 40)\<^sup>2 / 2" by simp
  moreover have "(0.848::real) \<le> 1 - (7 * 3.142 / 40)\<^sup>2 / 2"
    by (simp add: power2_eq_square)
  ultimately show ?thesis using cos_lower_quadratic [of "7 * pi / 40"] by linarith
qed

lemma normalized_sample_15:
  assumes "0 < g" "g < 9.85"
  shows "0.19 \<le> normalized_sample \<lparr>omega = 11 * pi / 2, gamma = g\<rparr> 15"
proof -
  have "11 * pi / 2 * (real 15 / 100) = pi - 7 * pi / 40" by simp
  then have "cos (11 * pi / 2 * (real 15 / 100)) = - cos (7 * pi / 40)"
    by (simp only: cos_pi_minus)
  then have v: "normalized_sample \<lparr>omega = 11 * pi / 2, gamma = g\<rparr> 15
                 = exp (- g * (real 15 / 100)) * cos (7 * pi / 40)"
    unfolding normalized_sample_eq by simp
  have "- 1.4775 \<le> - g * (real 15 / 100)" using assms(2) by simp
  then have "exp (- 1.4775) \<le> exp (- g * (real 15 / 100))" by (simp only: exp_le_cancel_iff)
  then have e: "0.2277 \<le> exp (- g * (real 15 / 100))" using exp_num_2 by linarith
  have "0.2277 * 0.848 \<le> exp (- g * (real 15 / 100)) * cos (7 * pi / 40)"
    by (rule mult_mono [OF e cos_num]) simp_all
  then show ?thesis unfolding v by simp
qed

lemma exp_num_3: "exp (- (1.848::real)) \<le> 0.18"
proof -
  have "(\<Sum>m<5. (1.848::real) ^ m / fact m) \<le> exp 1.848"
    by (rule exp_taylor_lower_nonneg) simp
  then have "(6::real) \<le> exp 1.848"
    by (simp add: lessThan_Suc eval_nat_numeral)
  then have "exp (- (1.848::real)) \<le> 1 / 6" by (rule exp_minus_le) simp
  also have "\<dots> \<le> (0.18::real)" by simp
  finally show ?thesis .
qed

lemma normalized_sample_small:
  assumes "6.6 \<le> g" "28 \<le> i"
  shows "\<bar>normalized_sample \<lparr>omega = 11 * pi / 2, gamma = g\<rparr> i\<bar> \<le> 0.18"
proof -
  have "real 28 \<le> real i" using assms(2) by (simp only: of_nat_le_iff)
  then have "28 / 100 \<le> real i / 100" by simp
  then have "6.6 * (28 / 100) \<le> g * (real i / 100)"
    using assms(1) by (intro mult_mono) simp_all
  then have "- g * (real i / 100) \<le> - 1.848" by simp
  then have "exp (- g * (real i / 100)) \<le> exp (- 1.848)" by (simp only: exp_le_cancel_iff)
  then have e: "exp (- g * (real i / 100)) \<le> 0.18" using exp_num_3 by linarith
  have "\<bar>normalized_sample \<lparr>omega = 11 * pi / 2, gamma = g\<rparr> i\<bar>
          = exp (- g * (real i / 100)) * \<bar>cos (11 * pi / 2 * (real i / 100))\<bar>"
    unfolding normalized_sample_eq by (simp add: abs_mult)
  also have "\<dots> \<le> 0.18 * 1"
    by (rule mult_mono [OF e]) simp_all
  finally show ?thesis by simp
qed

lemma test_loop_last:
  "last_interpolation (test_loop p 100 n) = (if n = 0 then - 1 else normalized_sample p (n - 1))"
  by (cases n) (simp_all add: test_step_def Let_def normalized_sample_def)

lemma test_loop_counter_Suc:
  "rest_position_counter (test_loop p 100 (Suc n)) =
     rest_position_counter (test_loop p 100 n) +
     (if last_interpolation (test_loop p 100 n) * normalized_sample p n < 0 then 1 else 0)"
  by (simp add: test_step_def Let_def normalized_sample_def)

lemma test_loop_detected_Suc:
  "detected_overshoot (test_loop p 100 (Suc n)) =
     (if 0 < rest_position_counter (test_loop p 100 (Suc n)) \<and>
         \<bar>detected_overshoot (test_loop p 100 n)\<bar> < \<bar>normalized_sample p n\<bar>
      then normalized_sample p n else detected_overshoot (test_loop p 100 n))"
  by (simp add: test_step_def Let_def normalized_sample_def)

declare test_loop.simps(2) [simp del]

lemma in_trough_change:
  "(in_trough n \<noteq> in_trough (Suc n)) \<longleftrightarrow> Suc n \<in> {10, 28, 46, 64, 82}"
  unfolding in_trough_def by auto

lemma sign_change_iff:
  assumes "n < 100"
  shows "last_interpolation (test_loop \<lparr>omega = 11 * pi / 2, gamma = g\<rparr> 100 n)
           * normalized_sample \<lparr>omega = 11 * pi / 2, gamma = g\<rparr> n < 0
         \<longleftrightarrow> n \<in> {10, 28, 46, 64, 82}"
proof (cases n)
  case 0
  have "in_trough 0" by (simp add: in_trough_def)
  then have "normalized_sample \<lparr>omega = 11 * pi / 2, gamma = g\<rparr> 0 < 0"
    by (intro normalized_sample_sign(1)) simp_all
  then show ?thesis using 0 by (simp add: test_loop_last)
next
  case (Suc j)
  let ?v = "normalized_sample \<lparr>omega = 11 * pi / 2, gamma = g\<rparr>"
  have j: "j < 100" "Suc j < 100" using assms Suc by simp_all
  have sj: "(?v j < 0 \<longleftrightarrow> in_trough j) \<and> (0 < ?v j \<longleftrightarrow> \<not> in_trough j)"
    using normalized_sample_sign [OF j(1), of g] by (cases "in_trough j") auto
  have sn: "(?v (Suc j) < 0 \<longleftrightarrow> in_trough (Suc j)) \<and> (0 < ?v (Suc j) \<longleftrightarrow> \<not> in_trough (Suc j))"
    using normalized_sample_sign [OF j(2), of g] by (cases "in_trough (Suc j)") auto
  have "?v j * ?v (Suc j) < 0 \<longleftrightarrow> in_trough j \<noteq> in_trough (Suc j)"
    using sj sn by (auto simp: mult_less_0_iff)
  then show ?thesis unfolding Suc in_trough_change [symmetric] by (simp add: test_loop_last)
qed

lemma test_loop_counter:
  assumes "n \<le> 100"
  shows "rest_position_counter (test_loop \<lparr>omega = 11 * pi / 2, gamma = g\<rparr> 100 n) =
           (if n \<le> 10 then 0 else if n \<le> 28 then 1 else if n \<le> 46 then 2
            else if n \<le> 64 then 3 else if n \<le> 82 then 4 else 5)"
  using assms
proof (induction n)
  case 0
  show ?case by simp
next
  case (Suc n)
  then have "n < 100" by simp
  from sign_change_iff [OF this, of g] Suc show ?case
    unfolding test_loop_counter_Suc by (cases "n \<in> {10, 28, 46, 64, 82}") auto
qed

lemma test_loop_detected:
  assumes g: "6.6 \<le> g" "g < 9.85" "peak_overshoot (11 * pi / 2) g < 0.21"
    and n: "n \<le> 100"
  shows "(n \<le> 10 \<longrightarrow> detected_overshoot (test_loop \<lparr>omega = 11 * pi / 2, gamma = g\<rparr> 100 n) = 0) \<and>
         0 \<le> detected_overshoot (test_loop \<lparr>omega = 11 * pi / 2, gamma = g\<rparr> 100 n) \<and>
         detected_overshoot (test_loop \<lparr>omega = 11 * pi / 2, gamma = g\<rparr> 100 n) \<le> 0.21 \<and>
         (15 < n \<longrightarrow> 0.19 \<le> detected_overshoot (test_loop \<lparr>omega = 11 * pi / 2, gamma = g\<rparr> 100 n))"
  using n
proof (induction n)
  case 0
  show ?case by simp
next
  case (Suc n)
  let ?p = "\<lparr>omega = 11 * pi / 2, gamma = g\<rparr>"
  let ?d = "detected_overshoot (test_loop ?p 100 n)"
  let ?d' = "detected_overshoot (test_loop ?p 100 (Suc n))"
  let ?v = "normalized_sample ?p n"
  have gpos: "0 < g" using g(1) by simp
  have n: "n < 100" "n \<le> 100" "Suc n \<le> 100" using Suc.prems by simp_all
  have IH: "n \<le> 10 \<longrightarrow> ?d = 0" "0 \<le> ?d" "?d \<le> 0.21" "15 < n \<longrightarrow> 0.19 \<le> ?d"
    using Suc.IH [OF n(2)] by simp_all
  have step: "?d' = (if 0 < rest_position_counter (test_loop ?p 100 (Suc n)) \<and> \<bar>?d\<bar> < \<bar>?v\<bar>
                     then ?v else ?d)"
    by (rule test_loop_detected_Suc)
  consider "n < 10" | "10 \<le> n" "n < 28" | "28 \<le> n" by linarith
  then show ?case
  proof cases
    case 1
    then have "rest_position_counter (test_loop ?p 100 (Suc n)) = 0"
      using test_loop_counter [OF n(3), of g] by simp
    then have "?d' = ?d" using step by simp
    then show ?thesis using IH 1 by simp
  next
    case 2
    have "\<not> in_trough n" using 2 by (simp add: in_trough_def)
    then have vpos: "0 < ?v" by (intro normalized_sample_sign(2) n(1))
    have "?v \<le> peak_overshoot (11 * pi / 2) g"
      by (rule normalized_sample_le_peak [OF gpos 2])
    then have vle: "?v \<le> 0.21" using g(3) by linarith
    have cpos: "0 < rest_position_counter (test_loop ?p 100 (Suc n))"
      using test_loop_counter [OF n(3), of g] 2(1) by simp
    have range: "0 \<le> ?d' \<and> ?d' \<le> 0.21" using step vpos vle IH(2,3) by auto
    have low: "0.19 \<le> ?d'" if "15 < Suc n"
    proof (cases "n = 15")
      case True
      then have "0.19 \<le> ?v" using normalized_sample_15 [OF gpos g(2)] by simp
      then show ?thesis using step IH(2) vpos cpos by (auto simp: abs_if split: if_splits)
    next
      case False
      then have "0.19 \<le> ?d" using that IH(4) by simp
      then show ?thesis using step vpos cpos by (auto simp: abs_if split: if_splits)
    qed
    show ?thesis using range low 2 by simp
  next
    case 3
    then have "0.19 \<le> ?d" using IH(4) by simp
    moreover have "\<bar>?v\<bar> \<le> 0.18" by (rule normalized_sample_small [OF g(1) 3])
    ultimately have "?d' = ?d" using step by (simp add: abs_if split: if_splits)
    then show ?thesis using IH 3 \<open>0.19 \<le> ?d\<close> by simp
  qed
qed

lemma sign_changes_snoc:
  "sign_changes (xs @ [x]) = sign_changes xs + (if xs \<noteq> [] \<and> last xs * x < 0 then 1 else 0)"
  by (induction xs rule: sign_changes.induct) simp_all

lemma sample_change_iff:
  assumes "Suc j < 100"
  shows "normalized_sample \<lparr>omega = 11 * pi / 2, gamma = g\<rparr> j
           * normalized_sample \<lparr>omega = 11 * pi / 2, gamma = g\<rparr> (Suc j) < 0
         \<longleftrightarrow> Suc j \<in> {10, 28, 46, 64, 82}"
  using sign_change_iff [OF assms, of g] by (simp add: test_loop_last)

lemma after_initial_trough_samples:
  "after_initial_trough (normalized_samples \<lparr>omega = 11 * pi / 2, gamma = g\<rparr>)
     = map (normalized_sample \<lparr>omega = 11 * pi / 2, gamma = g\<rparr>) [10..<100]"
proof -
  let ?v = "normalized_sample \<lparr>omega = 11 * pi / 2, gamma = g\<rparr>"
  have split: "[0..<100] = [0..<10] @ 10 # [11..<100]"
    by (simp add: upt_conv_Cons [of 10] upt_add_eq_append [of 0 10 90, simplified])
  have neg: "x < 0" if "x \<in> set (map ?v [0..<10])" for x
  proof -
    from that have "x \<in> ?v ` {0..<10}" by (simp only: set_map set_upt)
    then obtain i where "i \<in> {0..<10}" "x = ?v i" by (rule imageE)
    then have i: "i < 10" "x = ?v i" by simp_all
    have "in_trough i" using i(1) by (simp add: in_trough_def)
    then show ?thesis unfolding i(2) using i(1) by (intro normalized_sample_sign(1)) simp_all
  qed
  have "\<not> in_trough 10" by (simp add: in_trough_def)
  then have pos: "\<not> ?v 10 < 0" using normalized_sample_sign(2) [of 10 g] by simp
  have "dropWhile (\<lambda>v. v < 0) (map ?v [0..<10] @ ?v 10 # map ?v [11..<100])
          = dropWhile (\<lambda>v. v < 0) (?v 10 # map ?v [11..<100])"
    by (rule dropWhile_append2) (rule neg)
  also have "\<dots> = ?v 10 # map ?v [11..<100]" using pos by simp
  also have "\<dots> = map ?v [10..<100]" by (simp add: upt_conv_Cons [of 10])
  finally show ?thesis
    unfolding after_initial_trough_def normalized_samples_def split by simp
qed

lemma sign_changes_samples:
  assumes "10 < n" "n \<le> 100"
  shows "sign_changes (map (normalized_sample \<lparr>omega = 11 * pi / 2, gamma = g\<rparr>) [10..<n]) =
           (if n \<le> 28 then 0 else if n \<le> 46 then 1 else if n \<le> 64 then 2
            else if n \<le> 82 then 3 else 4)"
  using assms
proof (induction n)
  case 0
  then show ?case by simp
next
  case (Suc n)
  let ?v = "normalized_sample \<lparr>omega = 11 * pi / 2, gamma = g\<rparr>"
  show ?case
  proof (cases "n = 10")
    case True
    then show ?thesis by simp
  next
    case False
    then have n: "10 < n" "n \<le> 100" "n < 100" using Suc.prems by simp_all
    obtain j where j: "n = Suc j" using n(1) by (cases n) simp_all
    have "last (map ?v [10..<n]) = ?v j" "map ?v [10..<n] \<noteq> []"
      using n(1) j by simp_all
    then have "sign_changes (map ?v [10..<Suc n]) =
                 sign_changes (map ?v [10..<n]) + (if ?v j * ?v n < 0 then 1 else 0)"
      using n(1) by (simp add: sign_changes_snoc)
    also have "\<dots> = sign_changes (map ?v [10..<n]) + (if n \<in> {10, 28, 46, 64, 82} then 1 else 0)"
      using sample_change_iff [of j g] n(3) j by simp
    finally show ?thesis
      using Suc.IH [OF n(1,2)] n(1) by (cases "n \<in> {10, 28, 46, 64, 82}") auto
  qed
qed

lemma Max_abs_samples:
  assumes g: "6.6 \<le> g" "g < 9.85" "peak_overshoot (11 * pi / 2) g < 0.21"
  shows "0.19 \<le> Max (abs ` set (map (normalized_sample \<lparr>omega = 11 * pi / 2, gamma = g\<rparr>) [10..<100]))"
    and "Max (abs ` set (map (normalized_sample \<lparr>omega = 11 * pi / 2, gamma = g\<rparr>) [10..<100])) \<le> 0.21"
proof -
  let ?v = "normalized_sample \<lparr>omega = 11 * pi / 2, gamma = g\<rparr>"
  let ?A = "abs ` set (map ?v [10..<100])"
  have gpos: "0 < g" using g(1) by simp
  have fin: "finite ?A" by simp
  have "\<bar>?v 15\<bar> \<in> ?A" by simp
  then have "\<bar>?v 15\<bar> \<le> Max ?A" using fin by (rule Max_ge [rotated])
  moreover have "0.19 \<le> ?v 15" by (rule normalized_sample_15 [OF gpos g(2)])
  ultimately show "0.19 \<le> Max ?A" by linarith
  have le: "a \<le> 0.21" if "a \<in> ?A" for a
  proof -
    from that have "a \<in> (\<lambda>i. \<bar>?v i\<bar>) ` {10..<100}"
      by (simp only: set_map set_upt image_image)
    then obtain i where "i \<in> {10..<100}" "a = \<bar>?v i\<bar>" by (rule imageE)
    then have i: "10 \<le> i" "i < 100" "a = \<bar>?v i\<bar>" by simp_all
    show ?thesis
    proof (cases "i < 28")
      case True
      have "\<not> in_trough i" using i(1) True by (simp add: in_trough_def)
      then have "0 < ?v i" by (intro normalized_sample_sign(2) i(2))
      moreover have "?v i \<le> peak_overshoot (11 * pi / 2) g"
        by (rule normalized_sample_le_peak [OF gpos i(1) True])
      ultimately show ?thesis unfolding i(3) using g(3) by simp
    next
      case False
      then have "\<bar>?v i\<bar> \<le> 0.18" by (intro normalized_sample_small g(1)) simp
      then show ?thesis unfolding i(3) by simp
    qed
  qed
  have ne: "?A \<noteq> {}" by simp
  show "Max ?A \<le> 0.21" by (rule Max.boundedI [OF fin ne le])
qed

lemma abs_diff_le_of_bounds:
  fixes x :: real
  assumes "lo \<le> x" "x \<le> hi" "hi - c \<le> e" "c - lo \<le> e"
  shows "\<bar>x - c\<bar> \<le> e" "\<bar>c - x\<bar> \<le> e"
  using assms by linarith+

text \<open>
  C1. For the settings \<open>rest_position_runs = 4\<close>, \<open>overshoot = 0.2\<close>,
  \<^verbatim>\<open>calculate_params\<close> returns parameters \<open>p\<close>, and the 100 samples
  \<open>curve (i / 100) - 1\<close>, \<open>i = 0, \<dots>, 99\<close>, taken with \<open>p\<close> change sign exactly 4 times
  after the initial trough, and the largest absolute value among the samples after
  the first sign change is within \<open>0.01\<close> of \<open>0.2\<close>. The loop of
  \<^verbatim>\<open>test_interpolation\<close> finds the same: it ends with \<open>rest_position_counter - 1 = 4\<close>
  (five sign changes, the first of them the one that ends the initial trough) and
  with \<open>detected_overshoot\<close> within \<open>0.01\<close> of \<open>0.2\<close>.
\<close>

theorem test_settings_round_trip:
  "\<exists>p. calculate_params \<lparr>overshoot = 0.2, rest_position_runs = 4\<rparr> = Some p \<and>
       sign_changes (after_initial_trough (normalized_samples p)) = 4 \<and>
       \<bar>Max (abs ` set (after_initial_trough (normalized_samples p))) - 0.2\<bar> \<le> 0.01 \<and>
       rest_position_counter (test_loop p 100 100) - 1 = 4 \<and>
       \<bar>0.2 - detected_overshoot (test_loop p 100 100)\<bar> \<le> 0.01"
proof -
  obtain g where g: "calculate_gamma \<lparr>overshoot = 0.2, rest_position_runs = 4\<rparr> (11 * pi / 2) = Some g"
    "6.6 \<le> g" "g < 9.85" "peak_overshoot (11 * pi / 2) g < 0.21"
    using calculate_gamma_test by blast
  let ?p = "\<lparr>omega = 11 * pi / 2, gamma = g\<rparr>"
  have p: "calculate_params \<lparr>overshoot = 0.2, rest_position_runs = 4\<rparr> = Some ?p"
    unfolding calculate_params_def Let_def calculate_omega_test g(1) by simp
  have "sign_changes (map (normalized_sample ?p) [10..<100]) = 4"
    by (subst sign_changes_samples) simp_all
  then have a: "sign_changes (after_initial_trough (normalized_samples ?p)) = 4"
    unfolding after_initial_trough_samples .
  have "\<bar>Max (abs ` set (map (normalized_sample ?p) [10..<100])) - 0.2\<bar> \<le> 0.01"
    by (rule abs_diff_le_of_bounds(1) [OF Max_abs_samples [OF g(2,3,4)]]) simp_all
  then have b: "\<bar>Max (abs ` set (after_initial_trough (normalized_samples ?p))) - 0.2\<bar> \<le> 0.01"
    unfolding after_initial_trough_samples .
  have "rest_position_counter (test_loop ?p 100 100) = 5"
    by (subst test_loop_counter) simp_all
  then have c: "rest_position_counter (test_loop ?p 100 100) - 1 = 4" by simp
  have "0.19 \<le> detected_overshoot (test_loop ?p 100 100)"
       "detected_overshoot (test_loop ?p 100 100) \<le> 0.21"
    using test_loop_detected [OF g(2,3,4), of 100] by simp_all
  then have d: "\<bar>0.2 - detected_overshoot (test_loop ?p 100 100)\<bar> \<le> 0.01"
    by (rule abs_diff_le_of_bounds(2)) simp_all
  show ?thesis using p a b c d by blast
qed

section \<open>Series bounds for the library functions\<close>













section \<open>The damping search in double arithmetic\<close>











subsection \<open>Two runs\<close>


















subsection \<open>Positive damping\<close>




end
